theory Spec2Isabelle
  imports Main "HOL-Library.Word" "HOL-Library.Signed_Division"
begin

section \<open>The Rational class of dz2211.cpp\<close>

text \<open>
  Both \<open>int64_t\<close> and \<open>uint64_t\<close> are 64-bit words; the signedness lives in the
  operations, as it does in the machine: \<open>sint\<close> reads a word as \<open>int64_t\<close>, \<open>unat\<close> as
  \<open>uint64_t\<close>, and an implicit conversion between the two types keeps the bits.
  Signed overflow (undefined in C++) is modelled as two's complement wrap-around, which
  is what an unoptimised build computes. The two overflow checks are given a second time
  in the reading of the standard, where a signed operation that overflows has no result.
\<close>

type_synonym int64_t = "64 word"
type_synonym uint64_t = "64 word"

record Rational =
  numerator :: int64_t
  denominator :: uint64_t

text \<open>\<open>std::numeric_limits<int64_t>::min()\<close>\<close>

definition INT64_MIN :: int64_t where
  "INT64_MIN = - (2 ^ 63)"

text \<open>The values of \<open>int64_t\<close>, as mathematical integers.\<close>

definition representable :: "int \<Rightarrow> bool" where
  "representable k \<longleftrightarrow> - (2 ^ 63) \<le> k \<and> k < 2 ^ 63"

text \<open>
  Signed division of \<open>int64_t\<close>: truncation towards zero. The only quotient that does not
  fit, \<open>INT64_MIN / -1\<close>, wraps; the divisor 0 gives 0 as everywhere in HOL (the lemmas
  of the section on divisors show that the class divides by neither).
\<close>

definition sdiv64 :: "int64_t \<Rightarrow> int64_t \<Rightarrow> int64_t" where
  "sdiv64 a b = word_of_int (sint a sdiv sint b)"

text \<open>\<open>std::abs\<close> on \<open>int64_t\<close>.\<close>

definition std_abs :: "int64_t \<Rightarrow> int64_t" where
  "std_abs a = (if sint a < 0 then - a else a)"

text \<open>
  \<open>std::gcd(int64_t, uint64_t)\<close>: the common type is \<open>uint64_t\<close>, the first argument
  enters with its absolute value read as unsigned. \<open>std::gcd(uint64_t, uint64_t)\<close> is
  the gcd of the two unsigned values.
\<close>

definition gcd_i64_u64 :: "int64_t \<Rightarrow> uint64_t \<Rightarrow> uint64_t" where
  "gcd_i64_u64 m n = word_of_nat (gcd (nat \<bar>sint m\<bar>) (unat n))"

definition gcd_u64_u64 :: "uint64_t \<Rightarrow> uint64_t \<Rightarrow> uint64_t" where
  "gcd_u64_u64 m n = word_of_nat (gcd (unat m) (unat n))"

subsection \<open>Overflow predicates\<close>

definition mul_overflow :: "int64_t \<Rightarrow> int64_t \<Rightarrow> bool" where
  "mul_overflow a b =
     (if a = 0 \<or> b = 0 then False
      else let result = a * b in
        if a = INT64_MIN \<and> b = - 1 then True
        else if b = INT64_MIN \<and> a = - 1 then True
        else b \<noteq> 0 \<and> sdiv64 result b \<noteq> a)"

definition add_overflow :: "int64_t \<Rightarrow> int64_t \<Rightarrow> bool" where
  "add_overflow a b =
     (let result = a + b in
        if 0 < sint a \<and> 0 < sint b \<and> sint result < 0 then True
        else if sint a < 0 \<and> sint b < 0 \<and> 0 < sint result then True
        else False)"

subsection \<open>The overflow predicates in the reading of the standard\<close>

text \<open>
  Signed \<open>*\<close>, \<open>+\<close> and \<open>/\<close> as the standard defines them: the result when it is
  representable, and undefined behaviour, here \<open>None\<close>, when it is not or when the
  divisor is 0.
\<close>

definition checked_mul :: "int64_t \<Rightarrow> int64_t \<Rightarrow> int64_t option" where
  "checked_mul a b = (if representable (sint a * sint b) then Some (a * b) else None)"

definition checked_add :: "int64_t \<Rightarrow> int64_t \<Rightarrow> int64_t option" where
  "checked_add a b = (if representable (sint a + sint b) then Some (a + b) else None)"

definition checked_sdiv :: "int64_t \<Rightarrow> int64_t \<Rightarrow> int64_t option" where
  "checked_sdiv a b =
     (if b = 0 \<or> (a = INT64_MIN \<and> b = - 1) then None else Some (sdiv64 a b))"

text \<open>
  The two predicates again, statement for statement: the product and the sum are formed
  first, as in the source, and the tests follow only if they have a value.
\<close>

definition mul_overflow_std :: "int64_t \<Rightarrow> int64_t \<Rightarrow> bool option" where
  "mul_overflow_std a b =
     (if a = 0 \<or> b = 0 then Some False
      else case checked_mul a b of
        None \<Rightarrow> None
      | Some result \<Rightarrow>
          if a = INT64_MIN \<and> b = - 1 then Some True
          else if b = INT64_MIN \<and> a = - 1 then Some True
          else if b \<noteq> 0
            then (case checked_sdiv result b of None \<Rightarrow> None | Some q \<Rightarrow> Some (q \<noteq> a))
            else Some False)"

definition add_overflow_std :: "int64_t \<Rightarrow> int64_t \<Rightarrow> bool option" where
  "add_overflow_std a b =
     (case checked_add a b of
        None \<Rightarrow> None
      | Some result \<Rightarrow>
          if 0 < sint a \<and> 0 < sint b \<and> sint result < 0 then Some True
          else if sint a < 0 \<and> sint b < 0 \<and> 0 < sint result then Some True
          else Some False)"

subsection \<open>Normalisation and construction\<close>

definition reduce :: "Rational \<Rightarrow> Rational" where
  "reduce r =
     (if numerator r = 0 then r\<lparr>denominator := 1\<rparr>
      else let gcd_val = gcd_i64_u64 (std_abs (numerator r)) (denominator r) in
        \<lparr>numerator = sdiv64 (numerator r) gcd_val,
         denominator = denominator r div gcd_val\<rparr>)"

text \<open>\<open>Rational()\<close>, \<open>Rational(int64_t n)\<close> and \<open>Rational(int64_t num, int64_t denom)\<close>.\<close>

definition Rational_default :: Rational where
  "Rational_default = \<lparr>numerator = 0, denominator = 1\<rparr>"

definition Rational_int :: "int64_t \<Rightarrow> Rational" where
  "Rational_int n = \<lparr>numerator = n, denominator = 1\<rparr>"

definition Rational_pair :: "int64_t \<Rightarrow> int64_t \<Rightarrow> Rational" where
  "Rational_pair num denom =
     reduce (if denom = 0 then \<lparr>numerator = 0, denominator = 1\<rparr>
             else if sint denom < 0 then \<lparr>numerator = - num, denominator = - denom\<rparr>
             else \<lparr>numerator = num, denominator = denom\<rparr>)"

subsection \<open>Formatting\<close>

text \<open>
  \<open>std::to_string\<close> is the standard library's decimal rendering: the digits of an
  unsigned value without leading zeros, and a minus sign before those of a negative one.
\<close>

definition digit :: "nat \<Rightarrow> char" where
  "digit d = ''0123456789'' ! d"

fun digits :: "nat \<Rightarrow> string" where
  "digits n = (if n < 10 then [digit n] else digits (n div 10) @ [digit (n mod 10)])"

declare digits.simps [simp del]

definition to_string_u64 :: "uint64_t \<Rightarrow> string" where
  "to_string_u64 d = digits (unat d)"

definition to_string_i64 :: "int64_t \<Rightarrow> string" where
  "to_string_i64 n =
     (if sint n < 0 then CHR ''-'' # digits (nat (- sint n)) else digits (nat (sint n)))"

definition str :: "Rational \<Rightarrow> string" where
  "str r =
     (if denominator r = 1 then to_string_i64 (numerator r)
      else to_string_i64 (numerator r) @ ''/'' @ to_string_u64 (denominator r))"

text \<open>The number that a string of decimal digits denotes, to check \<open>digits\<close> against.\<close>

definition decimal_value :: "string \<Rightarrow> nat" where
  "decimal_value cs = foldl (\<lambda>v c. 10 * v + (of_char c - 48)) 0 cs"

subsection \<open>Arithmetic\<close>

definition op_neg :: "Rational \<Rightarrow> Rational" where
  "op_neg r = Rational_pair (- numerator r) (denominator r)"

text \<open>
  In \<open>add_safe\<close> and \<open>operator+\<close> a product of an \<open>int64_t\<close> and a \<open>uint64_t\<close> is
  computed in \<open>uint64_t\<close> and converted back: the same word as the wrapped signed product.
\<close>

definition add_safe :: "Rational \<Rightarrow> Rational \<Rightarrow> Rational" where
  "add_safe a b =
     (let gcd_denominators = gcd_u64_u64 (denominator a) (denominator b);
          simp_den1 = denominator a div gcd_denominators;
          simp_den2 = denominator b div gcd_denominators
      in if mul_overflow (numerator a) simp_den2 then
           Rational_pair (numerator a * denominator b + numerator b * denominator a)
                         (denominator a * denominator b)
         else let term1 = numerator a * simp_den2 in
           if mul_overflow (numerator b) simp_den1 then
             Rational_pair (numerator a * denominator b + numerator b * denominator a)
                           (denominator a * denominator b)
           else let term2 = numerator b * simp_den1 in
             if add_overflow term1 term2 then
               Rational_pair (numerator a * denominator b + numerator b * denominator a)
                             (denominator a * denominator b)
             else let new_numerator = term1 + term2;
                      new_denominator = denominator a * simp_den2
                  in Rational_pair new_numerator new_denominator)"

definition op_add :: "Rational \<Rightarrow> Rational \<Rightarrow> Rational" where
  "op_add this other =
     (if mul_overflow (numerator this) (denominator other) \<or>
         mul_overflow (numerator other) (denominator this) \<or>
         mul_overflow (denominator this) (denominator other)
      then add_safe this other
      else let new_numerator =
                 numerator this * denominator other + numerator other * denominator this;
               new_denominator = denominator this * denominator other
           in Rational_pair new_numerator new_denominator)"

definition op_sub :: "Rational \<Rightarrow> Rational \<Rightarrow> Rational" where
  "op_sub this other = op_add this (op_neg other)"

text \<open>
  In the slow path of \<open>operator*\<close> the gcds are \<open>uint64_t\<close>, so \<open>a.numerator_ /= gcd1\<close>
  and \<open>b.numerator_ /= gcd2\<close> divide in \<open>uint64_t\<close>: the unsigned division \<open>div\<close> of words.
\<close>

definition op_mul :: "Rational \<Rightarrow> Rational \<Rightarrow> Rational" where
  "op_mul this other =
     (if mul_overflow (numerator this) (numerator other) \<or>
         mul_overflow (denominator this) (denominator other)
      then let a = this; b = other;
               gcd1 = gcd_i64_u64 (std_abs (numerator a)) (denominator b);
               gcd2 = gcd_i64_u64 (std_abs (numerator b)) (denominator a);
               a = a\<lparr>numerator := numerator a div gcd1\<rparr>;
               b = b\<lparr>denominator := denominator b div gcd1\<rparr>;
               b = b\<lparr>numerator := numerator b div gcd2\<rparr>;
               a = a\<lparr>denominator := denominator a div gcd2\<rparr>
           in Rational_pair (numerator a * numerator b) (denominator a * denominator b)
      else let new_numerator = numerator this * numerator other;
               new_denominator = denominator this * denominator other
           in Rational_pair new_numerator new_denominator)"

definition op_div :: "Rational \<Rightarrow> Rational \<Rightarrow> Rational" where
  "op_div this other =
     (if numerator other = 0 then Rational_int 0
      else op_mul this (Rational_pair (denominator other) (numerator other)))"

text \<open>
  The compound assignments store the result of the operator in \<open>*this\<close>; the function
  returns the new value of \<open>*this\<close>.
\<close>

definition op_add_assign :: "Rational \<Rightarrow> Rational \<Rightarrow> Rational" where
  "op_add_assign this other = op_add this other"

definition op_sub_assign :: "Rational \<Rightarrow> Rational \<Rightarrow> Rational" where
  "op_sub_assign this other = op_sub this other"

definition op_mul_assign :: "Rational \<Rightarrow> Rational \<Rightarrow> Rational" where
  "op_mul_assign this other = op_mul this other"

definition op_div_assign :: "Rational \<Rightarrow> Rational \<Rightarrow> Rational" where
  "op_div_assign this other = op_div this other"

subsection \<open>Comparison\<close>

definition op_eq :: "Rational \<Rightarrow> Rational \<Rightarrow> bool" where
  "op_eq this other =
     (numerator this = numerator other \<and> denominator this = denominator other)"

text \<open>
  \<open>operator<\<close> multiplies an \<open>int64_t\<close> by a \<open>uint64_t\<close>: both products have type
  \<open>uint64_t\<close>, and \<open><\<close> compares them as unsigned values, which is \<open><\<close> on words.
\<close>

definition op_lt :: "Rational \<Rightarrow> Rational \<Rightarrow> bool" where
  "op_lt this other =
     (numerator this * denominator other < numerator other * denominator this)"

definition op_le :: "Rational \<Rightarrow> Rational \<Rightarrow> bool" where
  "op_le this other = (op_lt this other \<or> op_eq this other)"

definition op_gt :: "Rational \<Rightarrow> Rational \<Rightarrow> bool" where
  "op_gt this other = (\<not> op_le this other)"

definition op_ge :: "Rational \<Rightarrow> Rational \<Rightarrow> bool" where
  "op_ge this other = (\<not> op_lt this other)"

subsection \<open>The representation invariant\<close>

text \<open>
  The denominator, read as the \<open>uint64_t\<close> it is, is positive (so the sign of the value
  is the sign of the numerator), numerator and denominator are coprime, and zero is \<open>0/1\<close>.
\<close>

definition rep_invariant :: "Rational \<Rightarrow> bool" where
  "rep_invariant r \<longleftrightarrow>
     0 < unat (denominator r) \<and>
     gcd (nat \<bar>sint (numerator r)\<bar>) (unat (denominator r)) = 1 \<and>
     (numerator r = 0 \<longrightarrow> denominator r = 1)"

subsection \<open>The addition algorithm of the specification\<close>

text \<open>
  Section 4.3 of the specification, written from its words for comparison with
  \<open>op_add\<close>: cancel the common factor of the denominators, form the two terms and their
  sum over the mathematical integers, and use them when none of the three leaves the
  signed 64-bit range; otherwise fall back to the wrapped cross multiplication. Both
  results pass through the constructor.
\<close>

definition spec_add :: "Rational \<Rightarrow> Rational \<Rightarrow> Rational" where
  "spec_add x y =
     (let a = sint (numerator x); b = unat (denominator x);
          c = sint (numerator y); d = unat (denominator y);
          g = gcd b d; sd1 = b div g; sd2 = d div g;
          term1 = a * int sd2; term2 = c * int sd1
      in if representable term1 \<and> representable term2 \<and> representable (term1 + term2)
         then Rational_pair (word_of_int (term1 + term2)) (word_of_nat (b * sd2))
         else Rational_pair (numerator x * denominator y + numerator y * denominator x)
                            (denominator x * denominator y))"

subsection \<open>The multiplication and division algorithms of the specification\<close>

text \<open>
  Section 4.4 of the specification, written from its words for comparison with
  \<open>op_mul\<close>: the product of the numerators over the product of the denominators when
  both are representable; otherwise cancel \<open>gcd(|a|, d)\<close> from \<open>a\<close> and \<open>d\<close> and
  \<open>gcd(|c|, b)\<close> from \<open>c\<close> and \<open>b\<close> over the mathematical integers, multiply, and
  let the products wrap. Both results pass through the constructor.
\<close>

definition spec_mul :: "Rational \<Rightarrow> Rational \<Rightarrow> Rational" where
  "spec_mul x y =
     (let a = sint (numerator x); b = unat (denominator x);
          c = sint (numerator y); d = unat (denominator y)
      in if representable (a * c) \<and> representable (int b * int d)
         then Rational_pair (word_of_int (a * c)) (word_of_nat (b * d))
         else let g1 = gcd (nat \<bar>a\<bar>) d; g2 = gcd (nat \<bar>c\<bar>) b
              in Rational_pair (word_of_int ((a sdiv int g1) * (c sdiv int g2)))
                               (word_of_nat ((b div g2) * (d div g1))))"

text \<open>
  Section 4.5: the reciprocal of \<open>c/d\<close> is \<open>d/c\<close> with the sign in the numerator, and
  the quotient is \<open>0/1\<close> for a zero numerator and the product with the reciprocal
  otherwise.
\<close>

definition spec_reciprocal :: "Rational \<Rightarrow> Rational" where
  "spec_reciprocal y =
     (let c = sint (numerator y); d = int (unat (denominator y))
      in \<lparr>numerator = word_of_int (sgn c * d), denominator = word_of_int \<bar>c\<bar>\<rparr>)"

definition spec_div :: "Rational \<Rightarrow> Rational \<Rightarrow> Rational" where
  "spec_div x y =
     (if numerator y = 0 then \<lparr>numerator = 0, denominator = 1\<rparr>
      else spec_mul x (spec_reciprocal y))"

section \<open>Evaluation\<close>

text \<open>
  The definitions that the simplifier unfolds to run the class on concrete values; the
  gcd of two numerals is computed by Euclid's steps.
\<close>

lemmas Rational_eval = Rational_pair_def Rational_int_def reduce_def gcd_i64_u64_def
  gcd_u64_u64_def std_abs_def sdiv64_def mul_overflow_def add_overflow_def INT64_MIN_def
  gcd_non_0_nat Let_def

lemmas str_eval = str_def to_string_i64_def to_string_u64_def digits.simps digit_def

section \<open>Signed 64-bit arithmetic\<close>

subsection \<open>Truncating division of integers\<close>

lemma sdiv_mult_cancel:
  fixes A B :: int
  assumes "B \<noteq> 0"
  shows "(A * B) sdiv B = A"
proof -
  have "(A * B) sdiv B = sgn A * (sgn B * sgn B) * \<bar>A\<bar>"
    using assms by (simp add: signed_divide_int_def sgn_mult abs_mult)
  also have "sgn B * sgn B = 1"
    using assms by (simp add: sgn_if)
  finally show ?thesis by (simp add: sgn_mult_abs)
qed

lemma smod_abs_less: "B \<noteq> 0 \<Longrightarrow> \<bar>R smod B\<bar> < \<bar>B::int\<bar>"
  using smod_int_range [of B R] by auto

lemma sdiv_exact_back:
  fixes A B R :: int
  assumes "B \<noteq> 0" "R sdiv B = A" "2^64 dvd (R - A * B)" "\<bar>B\<bar> \<le> 2^63"
  shows "R = A * B"
proof -
  have eq: "R = A * B + R smod B" using sdiv_mult_smod_eq[of R B] assms(2) by simp
  have "\<bar>R smod B\<bar> < 2^64" using smod_abs_less[OF assms(1), of R] assms(4) by simp
  moreover have "2^64 dvd (R smod B)" using assms(3) eq by (metis add_diff_cancel_left')
  ultimately have "R smod B = 0" by auto
  then show ?thesis using eq by simp
qed

lemma sdiv_eq_2p63:
  fixes R B :: int
  assumes "- (2^63) \<le> R" "R < 2^63" "R sdiv B = 2^63"
  shows "R = - (2^63) \<and> B = - 1"
proof -
  have "R sdiv B \<in> {- \<bar>R\<bar>..\<bar>R\<bar>}" by (rule sdiv_int_range)
  with assms have R: "R = - (2^63)" by auto
  have B0: "B \<noteq> 0" using assms(3) by (auto simp: signed_divide_int_def)
  have "\<bar>B\<bar> = 1"
  proof (rule ccontr)
    assume "\<bar>B\<bar> \<noteq> 1"
    with B0 have "2 \<le> \<bar>B\<bar>" by simp
    then have "(2^63 :: int) div \<bar>B\<bar> \<le> 2^63 div 2"
      by (intro zdiv_mono2) simp_all
    moreover have "\<bar>R sdiv B\<bar> = \<bar>(2^63 :: int) div \<bar>B\<bar>\<bar>"
      using R B0 by (simp add: signed_divide_int_def abs_mult)
    moreover have "0 \<le> (2^63 :: int) div \<bar>B\<bar>"
      using B0 by (simp add: pos_imp_zdiv_nonneg_iff)
    ultimately have "\<bar>R sdiv B\<bar> < 2^63"
      by simp
    with assms(3) show False by simp
  qed
  moreover have "B \<noteq> 1" using assms(3) R by auto
  ultimately show ?thesis using R by auto
qed

lemma sdiv_cancel_factor:
  fixes G P H :: int
  assumes "0 < G"
  shows "(G * P) sdiv (G * H) = P sdiv H"
proof -
  have "sgn (G * P) = sgn P" "sgn (G * H) = sgn H"
    using assms by (simp_all add: sgn_mult)
  moreover have "\<bar>G * P\<bar> div \<bar>G * H\<bar> = \<bar>P\<bar> div \<bar>H\<bar>"
    using assms by (simp add: abs_mult)
  ultimately show ?thesis by (simp only: signed_divide_int_def)
qed

subsection \<open>The signed and the unsigned reading of a word\<close>

lemma sint_range64: "- (2^63) \<le> sint (a::64 word) \<and> sint a < 2^63"
  using sint_ge [of a] sint_lt [of a] by simp

lemma sint_INT64_MIN: "sint INT64_MIN = - (2^63)"
  by (simp add: INT64_MIN_def)

lemma sint_eq_MIN: "sint (a :: 64 word) = - (2^63) \<Longrightarrow> a = INT64_MIN"
  by (metis sint_INT64_MIN signed_word_eqI)

lemma sint_eq_m1: "sint (a :: 64 word) = - 1 \<Longrightarrow> a = - 1"
  by (simp add: signed_word_eqI)

lemma sint_zero_iff: "sint (a :: 64 word) = 0 \<longleftrightarrow> a = 0"
  using signed_word_eqI [of a 0] by auto

lemma double_INT64_MIN: "INT64_MIN + INT64_MIN = 0"
  by (simp add: INT64_MIN_def)

lemma stb_self: "- (2^63) \<le> k \<Longrightarrow> k < 2^63 \<Longrightarrow> signed_take_bit 63 (k::int) = k"
  using signed_take_bit_int_eq_self by simp

lemma stb_2p63: "signed_take_bit 63 (2^63 :: int) = - (2^63)"
  by simp

lemma stb_high:
  fixes s :: int
  assumes "2 ^ 63 \<le> s" "s < 2 ^ 64"
  shows "signed_take_bit 63 s = s - 2 ^ 64"
proof -
  have "signed_take_bit 63 s = signed_take_bit 63 (s - 2 ^ 64)"
    by (simp add: signed_take_bit_eq_iff_take_bit_eq take_bit_eq_mod)
  also have "\<dots> = s - 2 ^ 64"
    using assms by (intro stb_self) simp_all
  finally show ?thesis .
qed

lemma stb_low:
  fixes s :: int
  assumes "- (2 ^ 64) \<le> s" "s < - (2 ^ 63)"
  shows "signed_take_bit 63 s = s + 2 ^ 64"
proof -
  have "signed_take_bit 63 s = signed_take_bit 63 (s + 2 ^ 64)"
    by (simp add: signed_take_bit_eq_iff_take_bit_eq take_bit_eq_mod)
  also have "\<dots> = s + 2 ^ 64"
    using assms by (intro stb_self) simp_all
  finally show ?thesis .
qed

lemma sint_word_of_int_self:
  "- (2 ^ 63) \<le> k \<Longrightarrow> k < 2 ^ 63 \<Longrightarrow> sint (word_of_int k :: 64 word) = k"
  by (simp add: sint_sbintrunc' stb_self)

lemma sint_word_of_int_representable:
  assumes "representable k"
  shows "sint (word_of_int k :: 64 word) = k"
proof -
  from assms have "- (2 ^ 63) \<le> k" "k < 2 ^ 63"
    by (simp_all add: representable_def)
  then show ?thesis by (rule sint_word_of_int_self)
qed

lemma representable_factor:
  fixes G P :: int
  assumes "0 < G" and "representable (G * P)"
  shows "representable P"
proof -
  have G1: "1 \<le> G" using assms(1) by simp
  have up: "P \<le> G * P" if "0 \<le> P"
    using G1 that by (simp add: mult_le_cancel_right1)
  have down: "G * P \<le> P" if "P < 0"
    using G1 that by (simp add: mult_le_cancel_right2)
  from assms(2) have b: "- (2 ^ 63) \<le> G * P" "G * P < 2 ^ 63"
    by (simp_all add: representable_def)
  show ?thesis
  proof (cases "0 \<le> P")
    case True
    with up b show ?thesis unfolding representable_def by linarith
  next
    case False
    with down b show ?thesis unfolding representable_def by linarith
  qed
qed

lemma unat_lt64: "unat (w :: 64 word) < 2 ^ 64"
  using unsigned_less [of w, where 'a = nat] by simp

lemma uint_lt64: "uint (w :: 64 word) < 2 ^ 64"
  using uint_lt2p [of w] by simp

lemma unat_word_of_nat64: "G < 2 ^ 64 \<Longrightarrow> unat (word_of_nat G :: 64 word) = G"
  by (simp add: unat_of_nat)

lemma unat_minus_one64: "unat (- 1 :: 64 word) = 2 ^ 64 - 1"
  by (simp add: unsigned_minus_1_eq_mask mask_eq_exp_minus_1)

lemma abs_sint_le: "nat \<bar>sint (a :: 64 word)\<bar> \<le> 2 ^ 63"
  using sint_range64 [of a] by auto

lemma sint_of_small_unat:
  fixes w :: "64 word"
  assumes "unat w < 2 ^ 63"
  shows "sint w = int (unat w)"
proof -
  have "int (unat w) < int (2 ^ 63)" using assms by (simp only: of_nat_less_iff)
  then have u: "uint w < 2 ^ 63" by simp
  have "sint w = signed_take_bit 63 (uint w)" by (simp add: sint_uint)
  also have "\<dots> = uint w"
    using u uint_ge_0 [of w] by (intro stb_self) linarith+
  finally show ?thesis by simp
qed

lemma sint_unat_cases:
  fixes w :: "64 word"
  shows "sint w = (if unat w < 2 ^ 63 then int (unat w) else int (unat w) - 2 ^ 64)"
proof (cases "unat w < 2 ^ 63")
  case True
  then show ?thesis by (simp only: sint_of_small_unat if_True)
next
  case False
  have "int (unat w) < int (2 ^ 64)" using unat_lt64 [of w] by (simp only: of_nat_less_iff)
  then have hi: "uint w < 2 ^ 64" by simp
  have "int (2 ^ 63) \<le> int (unat w)" using False by (simp only: of_nat_le_iff not_less)
  then have lo: "2 ^ 63 \<le> uint w" by simp
  have "sint w = signed_take_bit 63 (uint w)" by (simp add: sint_uint)
  also have "\<dots> = uint w - 2 ^ 64" using lo hi by (rule stb_high)
  finally show ?thesis using False by simp
qed

lemma unat_2p63_is_MIN:
  fixes w :: "64 word"
  assumes "unat w = 2 ^ 63"
  shows "w = INT64_MIN"
proof -
  have "w = word_of_nat (unat w)" by simp
  also have "\<dots> = INT64_MIN" unfolding assms by (simp add: INT64_MIN_def)
  finally show ?thesis .
qed

lemma sint_minus_flip:
  "a \<noteq> INT64_MIN \<Longrightarrow> sint (- a :: 64 word) = - sint a"
proof -
  assume "a \<noteq> INT64_MIN"
  then have "sint a \<noteq> - (2 ^ 63)" using sint_eq_MIN by blast
  then show ?thesis
    using sint_range64 [of a] by (simp add: sint_word_minus stb_self)
qed

lemma abs_sint_minus: "\<bar>sint (- a :: 64 word)\<bar> = \<bar>sint a\<bar>"
proof (cases "a = INT64_MIN")
  case True
  then show ?thesis by (simp add: INT64_MIN_def)
next
  case False
  then have "sint a \<noteq> - (2 ^ 63)" using sint_eq_MIN by blast
  then have "sint (- a) = - sint a"
    using sint_range64 [of a] by (simp add: sint_word_minus stb_self)
  then show ?thesis by simp
qed

lemma abs_sint_std_abs: "\<bar>sint (std_abs a)\<bar> = \<bar>sint a\<bar>"
proof (cases "sint a < 0")
  case False
  then show ?thesis by (simp add: std_abs_def)
next
  case True
  show ?thesis
  proof (cases "a = INT64_MIN")
    case True
    then show ?thesis by (simp add: std_abs_def INT64_MIN_def)
  next
    case False
    then have "sint a \<noteq> - (2 ^ 63)" using sint_eq_MIN by blast
    then have "sint (- a) = - sint a"
      using sint_range64 [of a] by (simp add: sint_word_minus stb_self)
    with True show ?thesis by (simp add: std_abs_def)
  qed
qed

lemma unat_of_negative:
  fixes c :: "64 word"
  assumes "sint c < 0"
  shows "unat (- c) = nat \<bar>sint c\<bar>"
proof (cases "c = INT64_MIN")
  case True
  then show ?thesis by (simp add: INT64_MIN_def)
next
  case False
  then have f: "sint (- c) = - sint c" by (rule sint_minus_flip)
  have "unat (- c) < 2 ^ 63"
  proof (rule ccontr)
    assume "\<not> unat (- c) < 2 ^ 63"
    then have "sint (- c) = int (unat (- c)) - 2 ^ 64"
      by (simp only: sint_unat_cases [of "- c"] if_False)
    then have "sint (- c) < 0" using uint_lt64 [of "- c"] by simp
    with f assms show False by simp
  qed
  then have "sint (- c) = int (unat (- c))" by (rule sint_of_small_unat)
  with f have "int (unat (- c)) = - sint c" by (simp only:)
  then have "unat (- c) = nat (- sint c)" by (simp only: nat_int [symmetric])
  with assms show ?thesis by simp
qed

lemma unat_of_nonnegative:
  fixes c :: "64 word"
  assumes "\<not> sint c < 0"
  shows "unat c = nat \<bar>sint c\<bar>"
proof -
  have "unat c < 2 ^ 63"
  proof (rule ccontr)
    assume "\<not> unat c < 2 ^ 63"
    then have "sint c = int (unat c) - 2 ^ 64"
      by (simp only: sint_unat_cases [of c] if_False)
    then have "sint c < 0" using uint_lt64 [of c] by simp
    with assms show False by simp
  qed
  then have "sint c = int (unat c)" by (rule sint_of_small_unat)
  then have "unat c = nat (sint c)" by (simp only: nat_int)
  with assms show ?thesis by simp
qed

lemma sint_mult_dvd: "2^64 dvd (sint (a * b :: 64 word) - sint a * sint b)"
proof -
  have "take_bit 64 (sint (a * b)) = take_bit 64 (sint a * sint b)"
    by (simp add: sint_word_mult take_bit_signed_take_bit)
  then show ?thesis
    by (simp add: take_bit_eq_mod mod_eq_dvd_iff)
qed

lemma sint_add_cases:
  fixes p q :: "64 word"
  shows "sint (p + q) =
    (if 2 ^ 63 \<le> sint p + sint q then sint p + sint q - 2 ^ 64
     else if sint p + sint q < - (2 ^ 63) then sint p + sint q + 2 ^ 64
     else sint p + sint q)"
proof -
  define s where "s = sint p + sint q"
  have r: "- (2 ^ 64) \<le> s" "s < 2 ^ 64"
    using sint_range64 [of p] sint_range64 [of q] by (simp_all add: s_def)
  have e: "sint (p + q) = signed_take_bit 63 s"
    by (simp add: sint_word_add s_def)
  consider (hi) "2 ^ 63 \<le> s" | (lo) "s < - (2 ^ 63)" | (mid) "- (2 ^ 63) \<le> s" "s < 2 ^ 63"
    by linarith
  then have "signed_take_bit 63 s = (if 2 ^ 63 \<le> s then s - 2 ^ 64
     else if s < - (2 ^ 63) then s + 2 ^ 64 else s)"
  proof cases
    case hi
    then show ?thesis using r by (simp add: stb_high)
  next
    case lo
    then show ?thesis using r by (simp add: stb_low)
  next
    case mid
    then show ?thesis by (simp add: stb_self)
  qed
  then show ?thesis by (simp only: e s_def)
qed

lemma word_of_int_sint_mult_unat:
  "word_of_int (sint (n :: 64 word) * int (unat (d :: 64 word))) = n * d"
  by simp

lemma sdiv64_one: "sdiv64 a 1 = a"
  by (simp add: sdiv64_def)

section \<open>Overflow detection\<close>

lemma mul_overflow_exact:
  "mul_overflow a b \<longleftrightarrow> \<not> (- (2^63) \<le> sint a * sint b \<and> sint a * sint b < 2^63)"
proof -
  define A B R where "A = sint a" and "B = sint b" and "R = sint (a * b)"
  have rA: "- (2^63) \<le> A" "A < 2^63" and rB: "- (2^63) \<le> B" "B < 2^63"
    and rR: "- (2^63) \<le> R" "R < 2^63"
    using sint_range64 [of a] sint_range64 [of b] sint_range64 [of "a * b"]
    by (simp_all add: A_def B_def R_def)
  consider (zero) "a = 0 \<or> b = 0"
    | (min1) "a \<noteq> 0" "b \<noteq> 0" "a = INT64_MIN \<and> b = - 1"
    | (min2) "a \<noteq> 0" "b \<noteq> 0" "b = INT64_MIN \<and> a = - 1"
    | (gen) "a \<noteq> 0" "b \<noteq> 0" "\<not> (a = INT64_MIN \<and> b = - 1)" "\<not> (b = INT64_MIN \<and> a = - 1)"
    by blast
  then show ?thesis
  proof cases
    case zero
    then show ?thesis by (auto simp: mul_overflow_def)
  next
    case min1
    then show ?thesis by (simp add: mul_overflow_def sint_INT64_MIN)
  next
    case min2
    then show ?thesis by (simp add: mul_overflow_def sint_INT64_MIN)
  next
    case gen
    have B0: "B \<noteq> 0" using gen(2) signed_word_eqI [of b 0] by (auto simp: B_def)
    have mo: "mul_overflow a b \<longleftrightarrow> sdiv64 (a * b) b \<noteq> a"
      using gen by (auto simp: mul_overflow_def Let_def)
    have sd: "sdiv64 (a * b) b = word_of_int (R sdiv B)"
      by (simp add: sdiv64_def R_def B_def)
    show ?thesis
    proof (cases "- (2^63) \<le> A * B \<and> A * B < 2^63")
      case True
      then have "R = A * B"
        by (simp add: R_def A_def B_def sint_word_mult stb_self)
      then have "R sdiv B = A" using B0 by (simp add: sdiv_mult_cancel)
      then have "sdiv64 (a * b) b = a" by (simp add: sd A_def)
      with True show ?thesis by (simp add: mo A_def B_def)
    next
      case False
      have "sdiv64 (a * b) b \<noteq> a"
      proof
        assume eq: "sdiv64 (a * b) b = a"
        define Q where "Q = R sdiv B"
        have Qr: "Q \<in> {- \<bar>R\<bar>..\<bar>R\<bar>}" unfolding Q_def by (rule sdiv_int_range)
        have "sint (word_of_int Q :: 64 word) = signed_take_bit 63 Q"
          by (simp add: sint_sbintrunc')
        moreover have "word_of_int Q = a"
          using eq by (simp add: sd Q_def)
        ultimately have sA: "signed_take_bit 63 Q = A"
          by (simp add: A_def)
        have "Q \<noteq> 2^63"
        proof
          assume "Q = 2^63"
          then have "R = - (2^63) \<and> B = - 1" "A = - (2^63)"
            using sdiv_eq_2p63 [OF rR, of B] sA by (simp_all add: Q_def)
          then have "a = INT64_MIN \<and> b = - 1"
            by (simp add: A_def B_def sint_eq_MIN sint_eq_m1)
          with gen(3) show False by simp
        qed
        with Qr rR have "- (2^63) \<le> Q" "Q < 2^63" by auto
        then have "Q = A" using sA by (simp add: stb_self)
        then have "R = A * B"
          using sdiv_exact_back [of B R A] B0 rB sint_mult_dvd [of a b]
          by (simp add: Q_def R_def A_def B_def)
        with rR False show False by simp
      qed
      with False show ?thesis by (simp add: mo A_def B_def)
    qed
  qed
qed

lemma mul_overflow_commute: "mul_overflow a b = mul_overflow b a"
  by (simp add: mul_overflow_exact mult.commute)

lemma mul_overflow_one: "\<not> mul_overflow a 1"
  using sint_range64 [of a] by (simp add: mul_overflow_exact)

text \<open>
  \<open>add_overflow\<close> detects every overflow of the sum but one: \<open>INT64_MIN + INT64_MIN\<close>
  wraps to 0, which the test \<open>result > 0\<close> lets through.
\<close>

lemma add_overflow_exact:
  "add_overflow p q \<longleftrightarrow>
     \<not> representable (sint p + sint q) \<and> \<not> (p = INT64_MIN \<and> q = INT64_MIN)"
proof -
  define P Q where "P = sint p" and "Q = sint q"
  have rP: "- (2 ^ 63) \<le> P" "P < 2 ^ 63" and rQ: "- (2 ^ 63) \<le> Q" "Q < 2 ^ 63"
    using sint_range64 [of p] sint_range64 [of q] by (simp_all add: P_def Q_def)
  have m: "p = INT64_MIN \<and> q = INT64_MIN \<longleftrightarrow> P + Q = - (2 ^ 64)"
  proof
    assume "p = INT64_MIN \<and> q = INT64_MIN"
    then show "P + Q = - (2 ^ 64)" by (simp add: P_def Q_def sint_INT64_MIN)
  next
    assume "P + Q = - (2 ^ 64)"
    with rP rQ have "P = - (2 ^ 63)" "Q = - (2 ^ 63)" by simp_all
    then show "p = INT64_MIN \<and> q = INT64_MIN"
      by (simp add: P_def Q_def sint_eq_MIN)
  qed
  have ao: "add_overflow p q \<longleftrightarrow>
     (0 < P \<and> 0 < Q \<and> sint (p + q) < 0) \<or> (P < 0 \<and> Q < 0 \<and> 0 < sint (p + q))"
    by (auto simp: add_overflow_def Let_def P_def Q_def)
  have sc: "sint (p + q) =
    (if 2 ^ 63 \<le> P + Q then P + Q - 2 ^ 64
     else if P + Q < - (2 ^ 63) then P + Q + 2 ^ 64 else P + Q)"
    unfolding P_def Q_def by (rule sint_add_cases)
  consider (hi) "2 ^ 63 \<le> P + Q" | (lo) "P + Q < - (2 ^ 63)"
    | (mid) "- (2 ^ 63) \<le> P + Q" "P + Q < 2 ^ 63"
    by linarith
  then have "add_overflow p q \<longleftrightarrow>
     \<not> representable (P + Q) \<and> \<not> (p = INT64_MIN \<and> q = INT64_MIN)"
  proof cases
    case hi
    then have "0 < P" "0 < Q" "sint (p + q) < 0" "P + Q \<noteq> - (2 ^ 64)"
      using rP rQ by (simp_all add: sc)
    with hi show ?thesis unfolding ao m representable_def by simp
  next
    case lo
    then have "P < 0" "Q < 0" "sint (p + q) = P + Q + 2 ^ 64" "\<not> 0 < P"
      using rP rQ by (simp_all add: sc)
    with lo rP rQ show ?thesis unfolding ao m representable_def by simp linarith
  next
    case mid
    then have s: "sint (p + q) = P + Q" by (simp add: sc)
    have "\<not> (0 < P \<and> 0 < Q \<and> P + Q < 0)" "\<not> (P < 0 \<and> Q < 0 \<and> 0 < P + Q)"
      by linarith+
    with mid show ?thesis unfolding ao s m representable_def by simp
  qed
  then show ?thesis by (simp only: P_def Q_def)
qed

lemma add_overflow_commute: "add_overflow a b = add_overflow b a"
  by (auto simp: add_overflow_def Let_def add.commute)

lemma add_overflow_minus: "\<not> add_overflow a (- a)"
  by (simp add: add_overflow_def)

section \<open>The greatest common divisors\<close>

lemma gcd_lt64: "gcd (nat \<bar>sint (n :: 64 word)\<bar>) (unat (d :: 64 word)) < 2 ^ 64"
proof -
  define N D where "N = nat \<bar>sint n\<bar>" and "D = unat d"
  have N: "N \<le> 2 ^ 63" unfolding N_def by (rule abs_sint_le)
  have D: "D < 2 ^ 64" unfolding D_def by (rule unat_lt64)
  have "gcd N D < 2 ^ 64"
  proof (cases "D = 0")
    case True
    then show ?thesis using N by simp
  next
    case False
    then have "gcd N D \<le> D" by (rule gcd_le2_nat)
    then show ?thesis using D by linarith
  qed
  then show ?thesis unfolding N_def D_def .
qed

lemma unat_gcd_i64_u64: "unat (gcd_i64_u64 n d) = gcd (nat \<bar>sint n\<bar>) (unat d)"
  unfolding gcd_i64_u64_def by (rule unat_word_of_nat64) (rule gcd_lt64)

lemma unat_gcd_u64_u64: "unat (gcd_u64_u64 m n) = gcd (unat m) (unat n)"
proof -
  have "gcd (unat m) (unat n) < 2 ^ 64"
  proof (cases "unat n = 0")
    case True
    then show ?thesis using unat_lt64 [of m] by simp
  next
    case False
    then have "gcd (unat m) (unat n) \<le> unat n" by (rule gcd_le2_nat)
    then show ?thesis using unat_lt64 [of n] by linarith
  qed
  then show ?thesis
    unfolding gcd_u64_u64_def by (rule unat_word_of_nat64)
qed

lemma gcd_u64_u64_commute: "gcd_u64_u64 m n = gcd_u64_u64 n m"
  by (simp add: gcd_u64_u64_def gcd.commute)

lemma gcd_u64_u64_same: "gcd_u64_u64 d d = d"
  by (simp add: gcd_u64_u64_def)

lemma mult_div_gcd_left: "gcd_u64_u64 m n * (m div gcd_u64_u64 m n) = m"
proof -
  define g G where "g = gcd_u64_u64 m n" and "G = gcd (unat m) (unat n)"
  have ug: "unat g = G"
    unfolding g_def G_def by (rule unat_gcd_u64_u64)
  have dv: "G dvd unat m"
    unfolding G_def by (rule gcd_dvd1)
  have ud: "unat (m div g) = unat m div G"
    by (simp only: unat_div ug)
  have "unat (g * (m div g)) = unat g * unat (m div g) mod 2 ^ LENGTH(64)"
    by (rule unat_word_ariths(2))
  also have "unat g * unat (m div g) = unat m"
    unfolding ug ud using dv by (rule dvd_mult_div_cancel)
  also have "unat m mod 2 ^ LENGTH(64) = unat m"
    using unat_lt64 [of m] by simp
  finally have "g * (m div g) = m"
    by (simp only: word_unat_eq_iff)
  then show ?thesis unfolding g_def .
qed

lemma mult_div_gcd_right: "gcd_u64_u64 m n * (n div gcd_u64_u64 m n) = n"
  using mult_div_gcd_left [of n m] by (simp add: gcd_u64_u64_commute [of n m])

lemma cross_denominator:
  "da * (db div gcd_u64_u64 da db) = db * (da div gcd_u64_u64 da db)"
proof -
  define g where "g = gcd_u64_u64 da db"
  have "da * (db div g) = (g * (da div g)) * (db div g)"
    by (simp only: g_def mult_div_gcd_left)
  also have "\<dots> = (g * (db div g)) * (da div g)"
    by (simp only: mult.assoc mult.commute mult.left_commute)
  also have "\<dots> = db * (da div g)"
    by (simp only: g_def mult_div_gcd_right)
  finally show ?thesis by (simp only: g_def)
qed

section \<open>Divisors\<close>

text \<open>
  The divisions of the class are defined: \<open>reduce\<close> divides by a gcd that is neither 0
  nor, read as \<open>int64_t\<close>, \<open>-1\<close>; the gcds of \<open>add_safe\<close> and \<open>operator*\<close> are
  nonzero as soon as one denominator is; \<open>mul_overflow\<close> divides by \<open>b\<close> only when
  \<open>b\<close> is nonzero and the quotient is not \<open>INT64_MIN / -1\<close>.
\<close>

lemma gcd_i64_u64_nonzero:
  assumes "n \<noteq> 0 \<or> d \<noteq> 0"
  shows "gcd_i64_u64 (std_abs n) d \<noteq> 0"
proof
  assume "gcd_i64_u64 (std_abs n) d = 0"
  then have "unat (gcd_i64_u64 (std_abs n) d) = 0" by simp
  then have "gcd (nat \<bar>sint n\<bar>) (unat d) = 0"
    by (simp only: unat_gcd_i64_u64 abs_sint_std_abs)
  then have "nat \<bar>sint n\<bar> = 0 \<and> unat d = 0" by (simp only: gcd_eq_0_iff)
  then have "n = 0 \<and> d = 0" by (simp add: sint_zero_iff unat_eq_0)
  with assms show False by simp
qed

lemma gcd_i64_u64_not_minus_one:
  assumes "n \<noteq> 0"
  shows "gcd_i64_u64 (std_abs n) d \<noteq> - 1"
proof
  assume "gcd_i64_u64 (std_abs n) d = - 1"
  then have "unat (gcd_i64_u64 (std_abs n) d) = unat (- 1 :: 64 word)" by simp
  then have g: "gcd (nat \<bar>sint n\<bar>) (unat d) = 2 ^ 64 - 1"
    by (simp only: unat_gcd_i64_u64 abs_sint_std_abs unat_minus_one64)
  have "nat \<bar>sint n\<bar> \<noteq> 0" using assms by (simp add: sint_zero_iff)
  then have "gcd (nat \<bar>sint n\<bar>) (unat d) \<le> nat \<bar>sint n\<bar>" by (rule gcd_le1_nat)
  with g abs_sint_le [of n] show False by simp
qed

lemma gcd_u64_u64_nonzero:
  assumes "m \<noteq> 0 \<or> n \<noteq> 0"
  shows "gcd_u64_u64 m n \<noteq> 0"
proof
  assume "gcd_u64_u64 m n = 0"
  then have "unat (gcd_u64_u64 m n) = 0" by simp
  then have "unat m = 0 \<and> unat n = 0"
    by (simp only: unat_gcd_u64_u64 gcd_eq_0_iff)
  then have "m = 0 \<and> n = 0" by (simp add: unat_eq_0)
  with assms show False by simp
qed

lemma mul_overflow_division_defined:
  assumes "\<not> (a = INT64_MIN \<and> b = - 1)"
  shows "b = 0 \<or> \<not> (a * b = INT64_MIN \<and> b = - 1)"
proof -
  have "a = INT64_MIN" if "a * b = INT64_MIN" "b = - 1"
  proof -
    from that have "- a = INT64_MIN" by simp
    then have "a = - INT64_MIN" by (metis minus_minus)
    then show ?thesis by (simp add: INT64_MIN_def)
  qed
  with assms show ?thesis by blast
qed

section \<open>The overflow checks in the reading of the standard\<close>

text \<open>
  Both checks form the result they are to guard before they test anything. Where the
  product or the sum is representable they return false; where it is not, the operation
  that forms it is undefined and so is the check.
\<close>

lemma mul_overflow_std_value:
  "mul_overflow_std a b = (if representable (sint a * sint b) then Some False else None)"
proof (cases "a = 0 \<or> b = 0")
  case True
  then show ?thesis by (auto simp: mul_overflow_std_def representable_def)
next
  case nz: False
  show ?thesis
  proof (cases "representable (sint a * sint b)")
    case False
    with nz show ?thesis by (simp add: mul_overflow_std_def checked_mul_def)
  next
    case True
    then have no: "\<not> mul_overflow a b"
      by (simp add: mul_overflow_exact representable_def)
    have s1: "\<not> (a = INT64_MIN \<and> b = - 1)" and s2: "\<not> (b = INT64_MIN \<and> a = - 1)"
      using True by (auto simp: representable_def sint_INT64_MIN)
    from no nz s1 s2 have q: "sdiv64 (a * b) b = a"
      by (simp add: mul_overflow_def Let_def)
    have d: "\<not> (a * b = INT64_MIN \<and> b = - 1)"
      using mul_overflow_division_defined [OF s1] nz by simp
    from nz True s1 s2 q d show ?thesis
      by (simp add: mul_overflow_std_def checked_mul_def checked_sdiv_def)
  qed
qed

lemma add_overflow_std_value:
  "add_overflow_std a b = (if representable (sint a + sint b) then Some False else None)"
proof (cases "representable (sint a + sint b)")
  case False
  then show ?thesis by (simp add: add_overflow_std_def checked_add_def)
next
  case True
  then have "\<not> add_overflow a b" by (simp add: add_overflow_exact)
  then have "\<not> (0 < sint a \<and> 0 < sint b \<and> sint (a + b) < 0)"
    "\<not> (sint a < 0 \<and> sint b < 0 \<and> 0 < sint (a + b))"
    by (auto simp: add_overflow_def Let_def split: if_splits)
  with True show ?thesis by (simp add: add_overflow_std_def checked_add_def)
qed

text \<open>Where the check has a result, it is the result of the wrap-around reading.\<close>

lemma mul_overflow_std_agrees:
  "mul_overflow_std a b = Some r \<Longrightarrow> mul_overflow a b = r"
  by (auto simp: mul_overflow_std_value mul_overflow_exact representable_def split: if_splits)

text \<open>
  Claim C6. The claim reads: \<open>mul_overflow a b\<close> is true exactly when the product of
  \<open>a\<close> and \<open>b\<close> is not representable, in particular at \<open>(INT64_MIN, -1)\<close> and
  \<open>(-1, INT64_MIN)\<close>, and false when an operand is 0. The code forms the signed product
  \<open>a * b\<close> on line 16, before every test but the one for 0, and that multiplication is
  undefined on exactly the inputs for which the claim asks for true. So the function
  returns false when the product is representable and has no defined result otherwise,
  the two special cases included: it never returns true. At \<open>a = 2^32\<close>, \<open>b = 2^31\<close>
  the product is \<open>2^63\<close>, and a compiler may resolve \<open>result / b != a\<close> to false. Only
  under wrap-around is the function the one the claim describes (\<open>mul_overflow_exact\<close>).
\<close>

theorem mul_overflow_undefined_on_overflow:
  "\<not> representable (sint (2 ^ 32 :: int64_t) * sint (2 ^ 31 :: int64_t))
   \<and> mul_overflow_std (2 ^ 32) (2 ^ 31) = None
   \<and> mul_overflow_std INT64_MIN (- 1) = None
   \<and> mul_overflow_std (- 1) INT64_MIN = None
   \<and> mul_overflow_std a b = (if representable (sint a * sint b) then Some False else None)"
proof -
  have "\<not> representable (sint (2 ^ 32 :: int64_t) * sint (2 ^ 31 :: int64_t))"
    by (simp add: representable_def)
  moreover have "\<not> representable (sint INT64_MIN * sint (- 1 :: int64_t))"
    by (simp add: representable_def sint_INT64_MIN)
  moreover have "\<not> representable (sint (- 1 :: int64_t) * sint INT64_MIN)"
    by (simp add: representable_def sint_INT64_MIN)
  ultimately show ?thesis
    by (simp only: mul_overflow_std_value if_False simp_thms)
qed

section \<open>Normalisation\<close>

lemma sint_sdiv64_exact:
  fixes n gv :: "64 word"
  assumes g: "unat gv = g" "0 < g" "g dvd nat \<bar>sint n\<bar>"
  shows "nat \<bar>sint (sdiv64 n gv)\<bar> = nat \<bar>sint n\<bar> div g"
proof (cases "sint n = 0")
  case True
  then show ?thesis by (simp add: sdiv64_def)
next
  case False
  define N where "N = nat \<bar>sint n\<bar>"
  have N0: "0 < N" using False by (simp add: N_def)
  have N63: "N \<le> 2 ^ 63" unfolding N_def by (rule abs_sint_le)
  have gN: "g \<le> N" using g(3) N0 unfolding N_def [symmetric] by (rule dvd_imp_le)
  show ?thesis
  proof (cases "g < 2 ^ 63")
    case True
    then have sg: "sint gv = int g" using g(1) sint_of_small_unat [of gv] by simp
    define Q where "Q = sint n sdiv int g"
    have Qeq: "Q = sgn (sint n) * (\<bar>sint n\<bar> div int g)"
      using g(2) by (simp add: Q_def signed_divide_int_def)
    have Qabs: "\<bar>Q\<bar> = \<bar>sint n\<bar> div int g"
      using False g(2) by (simp add: Qeq abs_mult pos_imp_zdiv_nonneg_iff)
    have "\<bar>sint n\<bar> div int g \<le> \<bar>sint n\<bar> div 1"
      using g(2) by (intro zdiv_mono2) simp_all
    then have Qr: "- (2 ^ 63) \<le> Q" "Q < 2 ^ 63"
      using sint_range64 [of n] Qeq Qabs by (auto simp: sgn_if split: if_splits)
    have "sint (sdiv64 n gv) = Q"
      using Qr by (simp add: sdiv64_def sg Q_def [symmetric] sint_word_of_int_self)
    then have "nat \<bar>sint (sdiv64 n gv)\<bar> = nat (\<bar>sint n\<bar> div int g)"
      by (simp add: Qabs)
    also have "\<dots> = N div g"
      by (simp add: N_def nat_div_distrib)
    finally show ?thesis by (simp add: N_def)
  next
    case False
    with gN N63 have g63: "g = 2 ^ 63" and N: "N = 2 ^ 63" by simp_all
    have "sint n = - (2 ^ 63)"
      using N sint_range64 [of n] by (auto simp: N_def)
    moreover have "gv = INT64_MIN" using g(1) g63 by (simp add: unat_2p63_is_MIN)
    ultimately have "sdiv64 n gv = 1" by (simp add: sdiv64_def sint_INT64_MIN)
    then show ?thesis using N g63 by (simp add: N_def [symmetric])
  qed
qed

lemma reduce_invariant:
  assumes "denominator r \<noteq> 0"
  shows "rep_invariant (reduce r)"
proof (cases "numerator r = 0")
  case True
  then show ?thesis by (simp add: reduce_def rep_invariant_def)
next
  case False
  define N D g where "N = nat \<bar>sint (numerator r)\<bar>" and "D = unat (denominator r)"
    and "g = gcd N D"
  define gv where "gv = gcd_i64_u64 (std_abs (numerator r)) (denominator r)"
  have N0: "0 < N" using False by (simp add: N_def sint_zero_iff)
  have D0: "0 < D" using assms by (simp add: D_def unat_gt_0)
  have g0: "0 < g" using N0 by (simp add: g_def)
  have ug: "unat gv = g"
    by (simp add: gv_def unat_gcd_i64_u64 abs_sint_std_abs g_def N_def D_def)
  have red: "reduce r = \<lparr>numerator = sdiv64 (numerator r) gv, denominator = denominator r div gv\<rparr>"
    using False by (simp add: reduce_def gv_def Let_def)
  have n': "nat \<bar>sint (sdiv64 (numerator r) gv)\<bar> = N div g"
    using sint_sdiv64_exact [OF ug g0] by (simp add: N_def g_def)
  have d': "unat (denominator r div gv) = D div g"
    by (simp add: unat_div ug D_def)
  have cop: "gcd (N div g) (D div g) = 1"
    using g0 by (simp add: g_def div_gcd_coprime)
  have Dg: "0 < D div g"
    using D0 g0 by (simp add: g_def div_greater_zero_iff dvd_imp_le)
  have Ng: "0 < N div g"
    using N0 g0 by (simp add: g_def div_greater_zero_iff dvd_imp_le)
  have nz: "sdiv64 (numerator r) gv \<noteq> 0"
    using n' Ng by auto
  show ?thesis
    unfolding red rep_invariant_def using n' d' cop Dg nz by simp
qed

lemma Rational_pair_invariant: "rep_invariant (Rational_pair num denom)"
  unfolding Rational_pair_def by (rule reduce_invariant) simp

lemma Rational_int_invariant: "rep_invariant (Rational_int n)"
  by (simp add: Rational_int_def rep_invariant_def)

lemma add_safe_invariant: "rep_invariant (add_safe a b)"
  by (simp add: add_safe_def Let_def Rational_pair_invariant)

lemma op_add_invariant: "rep_invariant (op_add a b)"
  by (simp add: op_add_def Let_def Rational_pair_invariant add_safe_invariant)

lemma op_mul_invariant: "rep_invariant (op_mul a b)"
  by (simp add: op_mul_def Let_def Rational_pair_invariant)

lemma op_div_invariant: "rep_invariant (op_div a b)"
  by (simp add: op_div_def Rational_int_invariant op_mul_invariant)

text \<open>
  Claim C2. Every value produced by a constructor (default, from one integer, from a
  numerator and denominator pair) or returned by an arithmetic operation (unary minus,
  \<open>+\<close>, \<open>-\<close>, \<open>*\<close>, \<open>/\<close> and the compound assignments) satisfies the representation
  invariant: positive denominator, coprime numerator and denominator, and \<open>0/1\<close> when
  the numerator is 0. The operands are arbitrary.
\<close>

theorem results_satisfy_invariant:
  "rep_invariant Rational_default
   \<and> rep_invariant (Rational_int n)
   \<and> rep_invariant (Rational_pair num denom)
   \<and> rep_invariant (op_neg a)
   \<and> rep_invariant (op_add a b) \<and> rep_invariant (op_sub a b)
   \<and> rep_invariant (op_mul a b) \<and> rep_invariant (op_div a b)
   \<and> rep_invariant (op_add_assign a b) \<and> rep_invariant (op_sub_assign a b)
   \<and> rep_invariant (op_mul_assign a b) \<and> rep_invariant (op_div_assign a b)"
  by (simp add: Rational_default_def rep_invariant_def [of "\<lparr>numerator = 0, denominator = 1\<rparr>"]
      Rational_int_invariant Rational_pair_invariant op_neg_def op_sub_def
      op_add_invariant op_mul_invariant op_div_invariant
      op_add_assign_def op_sub_assign_def op_mul_assign_def op_div_assign_def)

theorem results_satisfy_invariant_witness:
  "numerator (op_sub (Rational_pair 1 2) (Rational_pair 2 4)) = 0
   \<and> denominator (op_sub (Rational_pair 1 2) (Rational_pair 2 4)) = 1
   \<and> rep_invariant (op_sub (Rational_pair 1 2) (Rational_pair 2 4))"
proof -
  have "op_sub (Rational_pair 1 2) (Rational_pair 2 4) = \<lparr>numerator = 0, denominator = 1\<rparr>"
    by (simp add: op_sub_def op_neg_def op_add_def add_safe_def Rational_eval)
  then show ?thesis
    using results_satisfy_invariant [of 0 0 1 "Rational_pair 1 2" "Rational_pair 2 4"]
    by simp
qed

text \<open>
  Normalisation leaves a coprime pair as it is, sends every pair with numerator 0 to
  \<open>0/1\<close>, and cancels a common positive factor of numerator and denominator.
\<close>

lemma reduce_coprime:
  assumes "gcd (nat \<bar>sint n\<bar>) (unat d) = 1"
  shows "reduce \<lparr>numerator = n, denominator = d\<rparr> = \<lparr>numerator = n, denominator = d\<rparr>"
proof (cases "n = 0")
  case True
  with assms have "unat d = 1" by simp
  then have "d = 1" by (simp add: word_unat_eq_iff)
  with True show ?thesis by (simp add: reduce_def)
next
  case False
  have "gcd_i64_u64 (std_abs n) d = 1"
    unfolding gcd_i64_u64_def abs_sint_std_abs assms by simp
  with False show ?thesis by (simp add: reduce_def sdiv64_one)
qed

lemma Rational_pair_zero_numerator:
  "Rational_pair 0 x = \<lparr>numerator = 0, denominator = 1\<rparr>"
  by (simp add: Rational_pair_def reduce_def)

lemma reduce_cancel_factor:
  fixes G P Q :: int
  assumes G: "0 < G" and Q: "0 < Q"
    and rP: "representable (G * P)" and rQ: "representable (G * Q)"
  shows "reduce \<lparr>numerator = word_of_int (G * P), denominator = word_of_int (G * Q)\<rparr>
       = reduce \<lparr>numerator = word_of_int P, denominator = word_of_int Q\<rparr>"
proof (cases "P = 0")
  case True
  then show ?thesis by (simp add: reduce_def)
next
  case False
  define n' d' n d :: "64 word" where "n' = word_of_int (G * P)" and "d' = word_of_int (G * Q)"
    and "n = word_of_int P" and "d = word_of_int Q"
  have rP': "representable P"
    using G rP by (rule representable_factor)
  have rQ': "representable Q"
    using G rQ by (rule representable_factor)
  have sn': "sint n' = G * P"
    unfolding n'_def using rP by (rule sint_word_of_int_representable)
  have sd': "sint d' = G * Q"
    unfolding d'_def using rQ by (rule sint_word_of_int_representable)
  have sn: "sint n = P"
    unfolding n_def using rP' by (rule sint_word_of_int_representable)
  have sd: "sint d = Q"
    unfolding d_def using rQ' by (rule sint_word_of_int_representable)
  have GQ: "0 < G * Q" using G Q by simp
  have "\<not> sint d' < 0" using GQ by (simp add: sd')
  then have "unat d' = nat \<bar>sint d'\<bar>" by (rule unat_of_nonnegative)
  then have ud': "unat d' = nat (G * Q)" using GQ by (simp add: sd')
  have "\<not> sint d < 0" using Q by (simp add: sd)
  then have "unat d = nat \<bar>sint d\<bar>" by (rule unat_of_nonnegative)
  then have ud: "unat d = nat Q" using Q by (simp add: sd)
  define h where "h = gcd (nat \<bar>P\<bar>) (nat Q)"
  have h0: "0 < h" using Q by (simp add: h_def)
  have "nat \<bar>G * P\<bar> = nat G * nat \<bar>P\<bar>" "nat (G * Q) = nat G * nat Q"
    using G by (simp_all add: abs_mult nat_mult_distrib)
  then have gh: "gcd (nat \<bar>G * P\<bar>) (nat (G * Q)) = nat G * h"
    by (simp only: h_def gcd_mult_distrib_nat)
  define gv' gv where "gv' = gcd_i64_u64 (std_abs n') d'" and "gv = gcd_i64_u64 (std_abs n) d"
  have ugv': "unat gv' = nat G * h"
    by (simp only: gv'_def unat_gcd_i64_u64 abs_sint_std_abs sn' ud' gh)
  have ugv: "unat gv = h"
    by (simp only: gv_def unat_gcd_i64_u64 abs_sint_std_abs sn ud h_def)
  have "h \<le> nat Q" unfolding h_def using Q by (intro gcd_le2_nat) simp
  moreover have "nat Q < 2 ^ 63"
    using rQ' Q by (simp add: representable_def nat_less_iff)
  ultimately have hb: "h < 2 ^ 63" by linarith
  have "nat G * h \<le> nat G * nat Q" using \<open>h \<le> nat Q\<close> by simp
  also have "\<dots> = nat (G * Q)" using G by (simp add: nat_mult_distrib)
  finally have "nat G * h \<le> nat (G * Q)" .
  moreover have "nat (G * Q) < 2 ^ 63"
    using rQ GQ by (simp add: representable_def nat_less_iff)
  ultimately have gb: "nat G * h < 2 ^ 63" by linarith
  have sgv': "sint gv' = G * int h"
    using sint_of_small_unat [of gv'] gb G by (simp only: ugv') simp
  have sgv: "sint gv = int h"
    using sint_of_small_unat [of gv] hb by (simp only: ugv)
  have num: "sdiv64 n' gv' = sdiv64 n gv"
    by (simp only: sdiv64_def sn' sn sgv' sgv sdiv_cancel_factor [OF G])
  have "unat (d' div gv') = nat (G * Q) div (nat G * h)"
    by (simp only: unat_div ud' ugv')
  also have "\<dots> = nat Q div h"
    using G by (simp add: nat_mult_distrib)
  also have "\<dots> = unat (d div gv)"
    by (simp only: unat_div ud ugv)
  finally have den: "d' div gv' = d div gv"
    by (simp only: word_unat_eq_iff)
  have "n' \<noteq> 0" "n \<noteq> 0"
    using False G sn' sn by (auto simp flip: sint_zero_iff)
  then have "reduce \<lparr>numerator = n', denominator = d'\<rparr> = reduce \<lparr>numerator = n, denominator = d\<rparr>"
    by (simp add: reduce_def Let_def gv'_def [symmetric] gv_def [symmetric] num den)
  then show ?thesis by (simp only: n'_def d'_def n_def d_def)
qed

lemma Rational_pair_cancel_factor:
  fixes G P Q :: int
  assumes G: "0 < G" and Q: "0 < Q"
    and rP: "representable (G * P)" and rQ: "representable (G * Q)"
  shows "Rational_pair (word_of_int (G * P)) (word_of_int (G * Q))
       = Rational_pair (word_of_int P) (word_of_int Q)"
proof -
  have rQ': "representable Q"
    using G rQ by (rule representable_factor)
  have "sint (word_of_int (G * Q) :: 64 word) = G * Q"
    using rQ by (rule sint_word_of_int_representable)
  moreover have "sint (word_of_int Q :: 64 word) = Q"
    using rQ' by (rule sint_word_of_int_representable)
  moreover have "0 < G * Q" using G Q by simp
  ultimately have
    "\<not> sint (word_of_int (G * Q) :: 64 word) < 0" "(word_of_int (G * Q) :: 64 word) \<noteq> 0"
    "\<not> sint (word_of_int Q :: 64 word) < 0" "(word_of_int Q :: 64 word) \<noteq> 0"
    using Q by (auto simp flip: sint_zero_iff)
  then show ?thesis
    unfolding Rational_pair_def using reduce_cancel_factor [OF assms] by simp
qed

section \<open>Construction\<close>

text \<open>
  Claim C4. For every numerator \<open>n\<close>, the constructor with denominator 0 returns the zero
  value \<open>0/1\<close>, the same value as \<open>make(0, 1)\<close>; the constructor has no error result.
  In particular \<open>make(5, 0) = make(0, 1)\<close>.
\<close>

theorem Rational_pair_zero_denominator:
  "Rational_pair n 0 = Rational_pair 0 1
   \<and> Rational_pair n 0 = \<lparr>numerator = 0, denominator = 1\<rparr>
   \<and> Rational_pair 5 0 = Rational_pair 0 1"
  by (simp add: Rational_pair_def reduce_def)

section \<open>Division\<close>

text \<open>
  The reciprocal that \<open>operator/\<close> constructs from a normalised \<open>c/d\<close> is \<open>d/c\<close> with
  the sign moved to the numerator.
\<close>

lemma reciprocal_normalised:
  assumes "rep_invariant y" and "unat (denominator y) < 2 ^ 63" and "numerator y \<noteq> 0"
  shows "Rational_pair (denominator y) (numerator y) =
     (if sint (numerator y) < 0
      then \<lparr>numerator = - denominator y, denominator = - numerator y\<rparr>
      else \<lparr>numerator = denominator y, denominator = numerator y\<rparr>)"
proof -
  define c d where "c = numerator y" and "d = denominator y"
  have cop: "gcd (unat d) (nat \<bar>sint c\<bar>) = 1"
    using assms(1) by (simp add: rep_invariant_def c_def d_def gcd.commute)
  have sd: "nat \<bar>sint d\<bar> = unat d"
    using assms(2) sint_of_small_unat [of d] by (simp add: d_def)
  show ?thesis
  proof (cases "sint c < 0")
    case True
    have "gcd (nat \<bar>sint (- d)\<bar>) (unat (- c)) = 1"
      unfolding abs_sint_minus sd unat_of_negative [OF True] by (rule cop)
    then have "reduce \<lparr>numerator = - d, denominator = - c\<rparr>
                 = \<lparr>numerator = - d, denominator = - c\<rparr>"
      by (rule reduce_coprime)
    with True assms(3) show ?thesis
      by (simp add: Rational_pair_def c_def [symmetric] d_def [symmetric])
  next
    case False
    have "gcd (nat \<bar>sint d\<bar>) (unat c) = 1"
      unfolding sd unat_of_nonnegative [OF False] by (rule cop)
    then have "reduce \<lparr>numerator = d, denominator = c\<rparr> = \<lparr>numerator = d, denominator = c\<rparr>"
      by (rule reduce_coprime)
    with False assms(3) show ?thesis
      by (simp add: Rational_pair_def c_def [symmetric] d_def [symmetric])
  qed
qed

text \<open>The two branches of \<open>operator/\<close>.\<close>

lemma op_div_branches:
  "op_div x y =
     (if numerator y = 0 then \<lparr>numerator = 0, denominator = 1\<rparr>
      else op_mul x (Rational_pair (denominator y) (numerator y)))"
  by (simp add: op_div_def Rational_int_def)

text \<open>
  Against the specification: the zero branch is that of section 4.5, and the constructed
  reciprocal is its reciprocal for a normalised divisor with denominator below \<open>2^63\<close>.
\<close>

lemma op_div_zero_numerator:
  assumes "numerator y = 0"
  shows "op_div x y = \<lparr>numerator = 0, denominator = 1\<rparr>"
    and "spec_div x y = \<lparr>numerator = 0, denominator = 1\<rparr>"
  using assms by (simp_all add: op_div_def spec_div_def Rational_int_def)

lemma reciprocal_follows_spec:
  assumes "rep_invariant y" and "unat (denominator y) < 2 ^ 63" and "numerator y \<noteq> 0"
  shows "Rational_pair (denominator y) (numerator y) = spec_reciprocal y"
proof -
  have d: "word_of_int (int (unat (denominator y))) = denominator y"
    by simp
  show ?thesis
  proof (cases "sint (numerator y) < 0")
    case True
    then have "sgn (sint (numerator y)) = - 1" "\<bar>sint (numerator y)\<bar> = - sint (numerator y)"
      by simp_all
    then have "spec_reciprocal y
        = \<lparr>numerator = - denominator y, denominator = - numerator y\<rparr>"
      unfolding spec_reciprocal_def Let_def by simp
    with True show ?thesis
      by (simp only: reciprocal_normalised [OF assms] if_True)
  next
    case False
    moreover have "sint (numerator y) \<noteq> 0" using assms(3) by (simp add: sint_zero_iff)
    ultimately have "sgn (sint (numerator y)) = 1" "\<bar>sint (numerator y)\<bar> = sint (numerator y)"
      by simp_all
    then have "spec_reciprocal y
        = \<lparr>numerator = denominator y, denominator = numerator y\<rparr>"
      unfolding spec_reciprocal_def Let_def by simp
    with False show ?thesis
      by (simp only: reciprocal_normalised [OF assms] if_False)
  qed
qed

lemma op_div_zero_divisor_example:
  "op_div (Rational_pair 3 4) (Rational_pair 0 7) = Rational_pair 0 1"
  by (simp add: op_div_def Rational_int_def Rational_pair_def reduce_def)

text \<open>
  \<open>operator*\<close> is the algorithm of section 4.4 on its fast path, and on its slow path
  when both numerators are non-negative: there the unsigned division of a numerator by
  the gcd is the exact one.
\<close>

lemma op_mul_checks:
  assumes "unat (denominator x) < 2 ^ 63" and "unat (denominator y) < 2 ^ 63"
  shows "mul_overflow (numerator x) (numerator y) \<or> mul_overflow (denominator x) (denominator y)
     \<longleftrightarrow> \<not> (representable (sint (numerator x) * sint (numerator y)) \<and>
            representable (int (unat (denominator x)) * int (unat (denominator y))))"
  by (simp only: mul_overflow_exact sint_of_small_unat [OF assms(1)]
      sint_of_small_unat [OF assms(2)] representable_def de_Morgan_conj)

lemma op_mul_fast_follows_spec:
  assumes "unat (denominator x) < 2 ^ 63" and "unat (denominator y) < 2 ^ 63"
    and "\<not> mul_overflow (numerator x) (numerator y)"
    and "\<not> mul_overflow (denominator x) (denominator y)"
  shows "op_mul x y = spec_mul x y"
proof -
  have r: "representable (sint (numerator x) * sint (numerator y)) \<and>
           representable (int (unat (denominator x)) * int (unat (denominator y)))"
    using op_mul_checks [OF assms(1,2)] assms(3,4) by blast
  have n: "word_of_int (sint (numerator x) * sint (numerator y)) = numerator x * numerator y"
    by simp
  have d: "word_of_nat (unat (denominator x) * unat (denominator y))
             = denominator x * denominator y"
    by simp
  have "spec_mul x y = Rational_pair (numerator x * numerator y) (denominator x * denominator y)"
    unfolding spec_mul_def Let_def using r by (simp only: simp_thms if_True n d)
  moreover have "op_mul x y
      = Rational_pair (numerator x * numerator y) (denominator x * denominator y)"
    using assms(3,4) by (simp add: op_mul_def)
  ultimately show ?thesis by simp
qed

lemma sdiv_of_nonnegative:
  fixes a :: int
  assumes "0 \<le> a"
  shows "a sdiv int g = int (nat \<bar>a\<bar> div g)"
proof -
  have "a sdiv int g = sgn a * sgn (int g) * (a div int g)"
    using assms by (simp add: signed_divide_int_def)
  also have "\<dots> = a div int g"
    using assms by (cases "a = 0"; cases "g = 0") (simp_all add: sgn_if)
  also have "\<dots> = int (nat \<bar>a\<bar> div g)"
    using assms by (simp add: zdiv_int)
  finally show ?thesis .
qed

lemma udiv_gcd_of_nonnegative:
  fixes n d :: "64 word"
  assumes "0 \<le> sint n"
  shows "n div gcd_i64_u64 (std_abs n) d
       = word_of_int (sint n sdiv int (gcd (nat \<bar>sint n\<bar>) (unat d)))"
proof -
  define G where "G = gcd (nat \<bar>sint n\<bar>) (unat d)"
  have "\<not> sint n < 0" using assms by simp
  then have un: "unat n = nat \<bar>sint n\<bar>" by (rule unat_of_nonnegative)
  have "unat (n div gcd_i64_u64 (std_abs n) d) = nat \<bar>sint n\<bar> div G"
    by (simp only: unat_div unat_gcd_i64_u64 abs_sint_std_abs un G_def)
  then have "word_of_nat (unat (n div gcd_i64_u64 (std_abs n) d))
                = (word_of_nat (nat \<bar>sint n\<bar> div G) :: 64 word)"
    by (simp only:)
  then have "n div gcd_i64_u64 (std_abs n) d = word_of_nat (nat \<bar>sint n\<bar> div G)"
    by (simp only: of_nat_unat ucast_id)
  also have "\<dots> = word_of_int (int (nat \<bar>sint n\<bar> div G))"
    by simp
  also have "int (nat \<bar>sint n\<bar> div G) = sint n sdiv int G"
    using assms by (rule sdiv_of_nonnegative [symmetric])
  finally show ?thesis by (simp only: G_def)
qed

lemma udiv_gcd_denominator:
  fixes n d :: "64 word"
  shows "d div gcd_i64_u64 (std_abs n) d
       = word_of_nat (unat d div gcd (nat \<bar>sint n\<bar>) (unat d))"
proof -
  have "unat (d div gcd_i64_u64 (std_abs n) d) = unat d div gcd (nat \<bar>sint n\<bar>) (unat d)"
    by (simp only: unat_div unat_gcd_i64_u64 abs_sint_std_abs)
  then have "word_of_nat (unat (d div gcd_i64_u64 (std_abs n) d))
                = (word_of_nat (unat d div gcd (nat \<bar>sint n\<bar>) (unat d)) :: 64 word)"
    by (simp only:)
  then show ?thesis by (simp only: of_nat_unat ucast_id)
qed

lemma op_mul_nonnegative_follows_spec:
  assumes "unat (denominator x) < 2 ^ 63" and "unat (denominator y) < 2 ^ 63"
    and "0 \<le> sint (numerator x)" and "0 \<le> sint (numerator y)"
  shows "op_mul x y = spec_mul x y"
proof (cases "mul_overflow (numerator x) (numerator y) \<or>
              mul_overflow (denominator x) (denominator y)")
  case False
  with assms(1,2) show ?thesis by (intro op_mul_fast_follows_spec) simp_all
next
  case True
  then have nr: "\<not> (representable (sint (numerator x) * sint (numerator y)) \<and>
            representable (int (unat (denominator x)) * int (unat (denominator y))))"
    using op_mul_checks [OF assms(1,2)] by blast
  define a b c d where "a = sint (numerator x)" and "b = unat (denominator x)"
    and "c = sint (numerator y)" and "d = unat (denominator y)"
  define g1 g2 where "g1 = gcd (nat \<bar>a\<bar>) d" and "g2 = gcd (nat \<bar>c\<bar>) b"
  have n1: "numerator x div gcd_i64_u64 (std_abs (numerator x)) (denominator y)
          = word_of_int (a sdiv int g1)"
    unfolding a_def d_def g1_def using assms(3) by (rule udiv_gcd_of_nonnegative)
  have n2: "numerator y div gcd_i64_u64 (std_abs (numerator y)) (denominator x)
          = word_of_int (c sdiv int g2)"
    unfolding c_def b_def g2_def using assms(4) by (rule udiv_gcd_of_nonnegative)
  have d1: "denominator y div gcd_i64_u64 (std_abs (numerator x)) (denominator y)
          = word_of_nat (d div g1)"
    unfolding a_def d_def g1_def by (rule udiv_gcd_denominator)
  have d2: "denominator x div gcd_i64_u64 (std_abs (numerator y)) (denominator x)
          = word_of_nat (b div g2)"
    unfolding c_def b_def g2_def by (rule udiv_gcd_denominator)
  have code: "op_mul x y = Rational_pair (word_of_int (a sdiv int g1) * word_of_int (c sdiv int g2))
                                        (word_of_nat (b div g2) * word_of_nat (d div g1))"
    using True by (simp add: op_mul_def Let_def n1 n2 d1 d2)
  have spec: "spec_mul x y = Rational_pair (word_of_int ((a sdiv int g1) * (c sdiv int g2)))
                                          (word_of_nat ((b div g2) * (d div g1)))"
    unfolding spec_mul_def Let_def
    unfolding a_def [symmetric] b_def [symmetric] c_def [symmetric] d_def [symmetric]
      g1_def [symmetric] g2_def [symmetric]
    using nr [folded a_def b_def c_def d_def] by (simp only: if_False)
  show ?thesis
    unfolding code spec by (simp only: of_int_mult of_nat_mult)
qed

text \<open>So \<open>operator/\<close> follows the specification in the same two situations.\<close>

lemma reciprocal_denominator_small:
  assumes "numerator y \<noteq> INT64_MIN"
  shows "unat (denominator (spec_reciprocal y)) < 2 ^ 63"
proof -
  define c where "c = sint (numerator y)"
  have "c \<noteq> - (2 ^ 63)" using assms sint_eq_MIN [of "numerator y"] by (auto simp: c_def)
  then have r: "- (2 ^ 63) \<le> \<bar>c\<bar>" "\<bar>c\<bar> < 2 ^ 63"
    using sint_range64 [of "numerator y"] unfolding c_def [symmetric] by linarith+
  then have s: "sint (word_of_int \<bar>c\<bar> :: 64 word) = \<bar>c\<bar>"
    by (rule sint_word_of_int_self)
  then have "\<not> sint (word_of_int \<bar>c\<bar> :: 64 word) < 0" by simp
  then have "unat (word_of_int \<bar>c\<bar> :: 64 word) = nat \<bar>sint (word_of_int \<bar>c\<bar> :: 64 word)\<bar>"
    by (rule unat_of_nonnegative)
  then have "unat (word_of_int \<bar>c\<bar> :: 64 word) = nat \<bar>c\<bar>"
    by (simp only: s abs_abs)
  moreover have "nat \<bar>c\<bar> < 2 ^ 63" using r by (simp add: nat_less_iff)
  ultimately show ?thesis
    by (simp add: spec_reciprocal_def Let_def c_def)
qed

lemma op_div_fast_follows_spec:
  assumes "unat (denominator x) < 2 ^ 63"
    and "rep_invariant y" and "unat (denominator y) < 2 ^ 63"
    and "numerator y \<noteq> 0" and "numerator y \<noteq> INT64_MIN"
    and "\<not> mul_overflow (numerator x) (numerator (spec_reciprocal y))"
    and "\<not> mul_overflow (denominator x) (denominator (spec_reciprocal y))"
  shows "op_div x y = spec_div x y"
proof -
  have "op_div x y = op_mul x (spec_reciprocal y)"
    using assms(4) by (simp add: op_div_def reciprocal_follows_spec [OF assms(2,3,4)])
  also have "\<dots> = spec_mul x (spec_reciprocal y)"
    using assms(1) reciprocal_denominator_small [OF assms(5)] assms(6,7)
    by (rule op_mul_fast_follows_spec)
  finally show ?thesis using assms(4) by (simp add: spec_div_def)
qed

lemma op_div_nonnegative_follows_spec:
  assumes "unat (denominator x) < 2 ^ 63"
    and "rep_invariant y" and "unat (denominator y) < 2 ^ 63"
    and "0 \<le> sint (numerator x)" and "0 < sint (numerator y)"
  shows "op_div x y = spec_div x y"
proof -
  have n0: "numerator y \<noteq> 0" using assms(5) by auto
  have nm: "numerator y \<noteq> INT64_MIN" using assms(5) by (auto simp: sint_INT64_MIN)
  have r: "spec_reciprocal y = \<lparr>numerator = denominator y, denominator = numerator y\<rparr>"
    using assms(5) reciprocal_normalised [OF assms(2,3) n0]
    by (simp add: reciprocal_follows_spec [OF assms(2,3) n0, symmetric])
  have "sint (denominator y) = int (unat (denominator y))"
    using assms(3) by (rule sint_of_small_unat)
  then have p: "0 \<le> sint (numerator (spec_reciprocal y))"
    by (simp add: r)
  have "op_div x y = op_mul x (spec_reciprocal y)"
    using n0 by (simp add: op_div_def reciprocal_follows_spec [OF assms(2,3) n0])
  also have "\<dots> = spec_mul x (spec_reciprocal y)"
    using assms(1) reciprocal_denominator_small [OF nm] assms(4) p
    by (rule op_mul_nonnegative_follows_spec)
  finally show ?thesis using n0 by (simp add: spec_div_def)
qed

text \<open>
  Claim C5. The claim reads: dividing by a \<open>y\<close> whose numerator is 0 gives \<open>0/1\<close>, and
  for every other \<open>y = c/d\<close> the quotient is the product of \<open>x\<close> and the reciprocal
  \<open>d/c\<close> by the algorithm of section 4.4, that is \<open>spec_div\<close>. The first half holds. The
  second fails in the slow path of \<open>operator*\<close> when a numerator is negative: \<open>gcd1\<close>
  and \<open>gcd2\<close> are \<open>uint64_t\<close>, so \<open>a.numerator_ /= gcd1\<close> divides the numerator as an
  unsigned value, where \<open>reduce\<close> divides by an \<open>int64_t\<close>. For
  \<open>(-2^62/3) / (2/3)\<close> the specification gives \<open>-2^61\<close>, the exact quotient, and the
  code gives \<open>3 * 2^61\<close>. (The slow path is entered because \<open>mul_overflow\<close> reports
  the overflow of \<open>-2^62 * 3\<close>. Were that check to return false, the fast path would
  multiply with wrap-around and return \<open>2^61/3\<close>, the last equation below.)
\<close>

theorem op_div_unsigned_cancellation:
  "Rational_pair (- (2 ^ 62)) 3 = \<lparr>numerator = - (2 ^ 62), denominator = 3\<rparr>
   \<and> Rational_pair 2 3 = \<lparr>numerator = 2, denominator = 3\<rparr>
   \<and> spec_div \<lparr>numerator = - (2 ^ 62), denominator = 3\<rparr> \<lparr>numerator = 2, denominator = 3\<rparr>
        = \<lparr>numerator = - (2 ^ 61), denominator = 1\<rparr>
   \<and> op_div \<lparr>numerator = - (2 ^ 62), denominator = 3\<rparr> \<lparr>numerator = 2, denominator = 3\<rparr>
        = \<lparr>numerator = 3 * 2 ^ 61, denominator = 1\<rparr>
   \<and> sint (- (2 ^ 61) :: int64_t) < 0 \<and> 0 < sint (3 * 2 ^ 61 :: int64_t)
   \<and> Rational_pair (- (2 ^ 62) * 3) (3 * 2) = \<lparr>numerator = 2 ^ 61, denominator = 3\<rparr>"
proof -
  have f: "Rational_pair (- (2 ^ 62) * 3) (3 * 2) = \<lparr>numerator = 2 ^ 61, denominator = 3\<rparr>"
    by (simp add: Rational_eval)
  have x: "Rational_pair (- (2 ^ 62)) 3 = \<lparr>numerator = - (2 ^ 62), denominator = 3\<rparr>"
    by (simp add: Rational_eval)
  have y: "Rational_pair 2 3 = \<lparr>numerator = 2, denominator = 3\<rparr>"
    by (simp add: Rational_eval)
  have r: "spec_reciprocal \<lparr>numerator = 2, denominator = 3\<rparr> = \<lparr>numerator = 3, denominator = 2\<rparr>"
    by (simp add: spec_reciprocal_def)
  have m: "spec_mul \<lparr>numerator = - (2 ^ 62), denominator = 3\<rparr> \<lparr>numerator = 3, denominator = 2\<rparr>
        = \<lparr>numerator = - (2 ^ 61), denominator = 1\<rparr>"
    by (simp add: spec_mul_def representable_def Rational_eval)
  have s: "spec_div \<lparr>numerator = - (2 ^ 62), denominator = 3\<rparr> \<lparr>numerator = 2, denominator = 3\<rparr>
        = \<lparr>numerator = - (2 ^ 61), denominator = 1\<rparr>"
  proof -
    have "spec_div \<lparr>numerator = - (2 ^ 62), denominator = 3\<rparr> \<lparr>numerator = 2, denominator = 3\<rparr>
        = spec_mul \<lparr>numerator = - (2 ^ 62), denominator = 3\<rparr>
            (spec_reciprocal \<lparr>numerator = 2, denominator = 3\<rparr>)"
      by (simp add: spec_div_def)
    then show ?thesis by (simp only: r m)
  qed
  have c: "Rational_pair 3 2 = \<lparr>numerator = 3, denominator = 2\<rparr>"
    by (simp add: Rational_eval)
  have p: "op_mul \<lparr>numerator = - (2 ^ 62), denominator = 3\<rparr> \<lparr>numerator = 3, denominator = 2\<rparr>
        = \<lparr>numerator = 3 * 2 ^ 61, denominator = 1\<rparr>"
    by (simp add: op_mul_def Rational_eval)
  have o: "op_div \<lparr>numerator = - (2 ^ 62), denominator = 3\<rparr> \<lparr>numerator = 2, denominator = 3\<rparr>
        = \<lparr>numerator = 3 * 2 ^ 61, denominator = 1\<rparr>"
  proof -
    have "op_div \<lparr>numerator = - (2 ^ 62), denominator = 3\<rparr> \<lparr>numerator = 2, denominator = 3\<rparr>
        = op_mul \<lparr>numerator = - (2 ^ 62), denominator = 3\<rparr> (Rational_pair 3 2)"
      by (simp add: op_div_def)
    then show ?thesis by (simp only: c p)
  qed
  have g: "sint (- (2 ^ 61) :: int64_t) < 0" "0 < sint (3 * 2 ^ 61 :: int64_t)"
    by simp_all
  show ?thesis
    unfolding s o using x y g f by simp
qed

section \<open>Formatting\<close>

lemma of_char_digit: "d < 10 \<Longrightarrow> of_char (digit d) = 48 + d"
  by (auto simp: digit_def numeral_eq_Suc less_Suc_eq)

text \<open>\<open>digits\<close> is a decimal rendering: reading the digits back gives the number.\<close>

lemma decimal_value_digits: "decimal_value (digits n) = n"
proof (induction n rule: digits.induct)
  case (1 n)
  show ?case
  proof (cases "n < 10")
    case True
    then show ?thesis
      by (subst digits.simps) (simp add: decimal_value_def of_char_digit)
  next
    case False
    with 1 show ?thesis
      by (subst digits.simps) (simp add: decimal_value_def of_char_digit)
  qed
qed

text \<open>
  Claim C10. For every value, \<open>str\<close> is the decimal rendering of the numerator alone when
  the denominator is 1, and otherwise the renderings of numerator and denominator with a
  slash between them; \<open>str(make(6,3))\<close> is "2" and \<open>str(make(6,4))\<close> is "3/2".
\<close>

theorem str_renders:
  "str r =
     (if denominator r = 1 then to_string_i64 (numerator r)
      else to_string_i64 (numerator r) @ ''/'' @ to_string_u64 (denominator r))
   \<and> str (Rational_pair 6 3) = ''2''
   \<and> str (Rational_pair 6 4) = ''3/2''"
proof -
  have "Rational_pair 6 3 = \<lparr>numerator = 2, denominator = 1\<rparr>"
    by (simp add: Rational_eval)
  then have "str (Rational_pair 6 3) = ''2''"
    by (simp add: str_eval)
  moreover have "Rational_pair 6 4 = \<lparr>numerator = 3, denominator = 2\<rparr>"
    by (simp add: Rational_eval)
  then have "str (Rational_pair 6 4) = ''3/2''"
    by (simp add: str_eval)
  ultimately show ?thesis by (simp add: str_def)
qed

section \<open>Comparison\<close>

text \<open>What \<open>operator<\<close> computes: a comparison of the two products as unsigned values.\<close>

lemma op_lt_unsigned:
  "op_lt x y \<longleftrightarrow>
     (unat (numerator x) * unat (denominator y)) mod 2 ^ 64
       < (unat (numerator y) * unat (denominator x)) mod 2 ^ 64"
  by (simp add: op_lt_def word_less_nat_alt unat_word_ariths)

text \<open>
  When the left numerator is negative and the right one is not, and both cross products
  fit the signed range, the left value is the smaller one and \<open>operator<\<close> says it
  is not: read as unsigned, the negative product is the larger.
\<close>

lemma op_lt_negative_left:
  assumes "sint (numerator x) < 0" and "0 \<le> sint (numerator y)"
    and "0 < unat (denominator y)"
    and "representable (sint (numerator x) * int (unat (denominator y)))"
    and "representable (sint (numerator y) * int (unat (denominator x)))"
  shows "\<not> op_lt x y"
    and "sint (numerator x) * int (unat (denominator y))
           < sint (numerator y) * int (unat (denominator x))"
proof -
  define l r where "l = numerator x * denominator y" and "r = numerator y * denominator x"
  have "0 < int (unat (denominator y))" using assms(3) by (simp only: of_nat_0_less_iff)
  then have neg: "sint (numerator x) * int (unat (denominator y)) < 0"
    using assms(1) by (simp add: mult_less_0_iff)
  have pos: "0 \<le> sint (numerator y) * int (unat (denominator x))"
    using assms(2) by (simp only: mult_nonneg_nonneg of_nat_0_le_iff)
  from neg pos show "sint (numerator x) * int (unat (denominator y))
           < sint (numerator y) * int (unat (denominator x))"
    by linarith
  have "sint l = sint (numerator x) * int (unat (denominator y))"
    unfolding l_def word_of_int_sint_mult_unat [symmetric]
    using assms(4) by (rule sint_word_of_int_representable)
  with neg have "sint l < 0" by simp
  then have lb: "\<not> unat l < 2 ^ 63"
    using sint_of_small_unat [of l] by auto
  have "sint r = sint (numerator y) * int (unat (denominator x))"
    unfolding r_def word_of_int_sint_mult_unat [symmetric]
    using assms(5) by (rule sint_word_of_int_representable)
  with pos have "\<not> sint r < 0" by simp
  then have "unat r = nat \<bar>sint r\<bar>" by (rule unat_of_nonnegative)
  moreover have "nat \<bar>sint r\<bar> \<le> 2 ^ 63" by (rule abs_sint_le)
  ultimately have "unat r \<le> unat l" using lb by linarith
  then show "\<not> op_lt x y"
    by (simp add: op_lt_def l_def r_def word_less_nat_alt)
qed

text \<open>
  Claim C1. The claim reads: \<open>x < y\<close> is the signed comparison of the cross products, so
  that it agrees with the order of the rational values whenever both cross products are
  representable, negative numerators included, as for \<open>make(-1,2) < make(1,2)\<close>. The
  code compares the products as unsigned values instead: for \<open>-1/2\<close> and \<open>1/2\<close> the
  signed cross products are \<open>-2 < 2\<close>, and yet \<open>operator<\<close> returns false and
  \<open>operator>\<close> returns true.
\<close>

theorem op_lt_negative_numerator:
  "Rational_pair (- 1) 2 = \<lparr>numerator = - 1, denominator = 2\<rparr>
   \<and> Rational_pair 1 2 = \<lparr>numerator = 1, denominator = 2\<rparr>
   \<and> sint (- 1 :: int64_t) * int (unat (2 :: uint64_t))
       < sint (1 :: int64_t) * int (unat (2 :: uint64_t))
   \<and> \<not> op_lt (Rational_pair (- 1) 2) (Rational_pair 1 2)
   \<and> op_gt (Rational_pair (- 1) 2) (Rational_pair 1 2)"
  by (simp add: op_lt_def op_gt_def op_le_def op_eq_def Rational_eval)

section \<open>Commutativity\<close>

lemma add_safe_commute: "add_safe a b = add_safe b a"
proof -
  have g: "gcd_u64_u64 (denominator b) (denominator a) = gcd_u64_u64 (denominator a) (denominator b)"
    by (rule gcd_u64_u64_commute)
  have c: "denominator b * (denominator a div gcd_u64_u64 (denominator a) (denominator b))
         = denominator a * (denominator b div gcd_u64_u64 (denominator a) (denominator b))"
    by (rule cross_denominator [symmetric])
  show ?thesis
    unfolding add_safe_def [of a b] add_safe_def [of b a] Let_def g c
    by (auto simp: add.commute mult.commute add_overflow_commute)
qed

lemma op_add_commute: "op_add a b = op_add b a"
  unfolding op_add_def Let_def
  by (auto simp: add_safe_commute [of a b] mul_overflow_commute [of "denominator a" "denominator b"]
      add.commute mult.commute)

lemma op_mul_commute: "op_mul a b = op_mul b a"
  unfolding op_mul_def Let_def
  by (auto simp: mul_overflow_commute [of "numerator a" "numerator b"]
      mul_overflow_commute [of "denominator a" "denominator b"] mult.commute)

text \<open>
  Claim C8. For all values \<open>a\<close> and \<open>b\<close>, whether or not an overflow check triggers,
  \<open>a + b = b + a\<close> and \<open>a * b = b * a\<close>: the overflow checks and both computation
  paths of each operator are symmetric in the operands.
\<close>

theorem addition_multiplication_commute:
  "op_add a b = op_add b a \<and> op_mul a b = op_mul b a"
  by (simp add: op_add_commute [of a b] op_mul_commute [of a b])

section \<open>Additive inverse\<close>

lemma op_neg_small_denominator:
  assumes "rep_invariant a" "unat (denominator a) < 2 ^ 63"
  shows "op_neg a = \<lparr>numerator = - numerator a, denominator = denominator a\<rparr>"
proof -
  have d0: "denominator a \<noteq> 0"
    using assms(1) by (auto simp: rep_invariant_def)
  have "sint (denominator a) = int (unat (denominator a))"
    using assms(2) by (rule sint_of_small_unat)
  then have pos: "\<not> sint (denominator a) < 0" by simp
  have "gcd (nat \<bar>sint (- numerator a)\<bar>) (unat (denominator a)) = 1"
    unfolding abs_sint_minus using assms(1) by (simp add: rep_invariant_def)
  then have "reduce \<lparr>numerator = - numerator a, denominator = denominator a\<rparr>
               = \<lparr>numerator = - numerator a, denominator = denominator a\<rparr>"
    by (rule reduce_coprime)
  then show ?thesis
    using d0 pos by (simp add: op_neg_def Rational_pair_def)
qed

lemma add_safe_opposite:
  assumes "d \<noteq> 0"
  shows "add_safe \<lparr>numerator = n, denominator = d\<rparr> \<lparr>numerator = - n, denominator = d\<rparr>
           = \<lparr>numerator = 0, denominator = 1\<rparr>"
proof -
  have "0 < unat d" using assms by (simp add: unat_gt_0)
  then have "d div d = 1" by (simp add: word_unat_eq_iff unat_div)
  then show ?thesis
    by (simp add: add_safe_def gcd_u64_u64_same mul_overflow_one add_overflow_minus
        Rational_pair_zero_numerator)
qed

lemma op_add_opposite:
  assumes "d \<noteq> 0"
  shows "op_add \<lparr>numerator = n, denominator = d\<rparr> \<lparr>numerator = - n, denominator = d\<rparr>
           = \<lparr>numerator = 0, denominator = 1\<rparr>"
  using assms by (simp add: op_add_def add_safe_opposite Rational_pair_zero_numerator)

text \<open>
  Claim C7, as it stands: for every value \<open>a\<close> whose numerator is not \<open>INT64_MIN\<close>,
  \<open>a + (-a) = make(0, 1)\<close>, and unary minus flips the sign of the numerator and leaves
  the denominator unchanged. It fails for the denominator \<open>2^63\<close>: the value
  \<open>-1/2^63\<close>, which the constructor returns for \<open>make(1, INT64_MIN)\<close>, satisfies the
  invariant, but \<open>operator-\<close> passes its denominator to a constructor parameter of type
  \<open>int64_t\<close>, where it is negative: the constructor negates the numerator a second time,
  so \<open>-a = a\<close> and \<open>a + (-a) = 1/2^62\<close>.
\<close>

theorem additive_inverse_large_denominator:
  "Rational_pair 1 INT64_MIN = \<lparr>numerator = - 1, denominator = 2 ^ 63\<rparr>
   \<and> 0 < unat (2 ^ 63 :: uint64_t)
   \<and> gcd (nat \<bar>sint (- 1 :: int64_t)\<bar>) (unat (2 ^ 63 :: uint64_t)) = 1
   \<and> (- 1 :: int64_t) \<noteq> INT64_MIN
   \<and> op_neg \<lparr>numerator = - 1, denominator = 2 ^ 63\<rparr>
        = \<lparr>numerator = - 1, denominator = 2 ^ 63\<rparr>
   \<and> op_add \<lparr>numerator = - 1, denominator = 2 ^ 63\<rparr>
             (op_neg \<lparr>numerator = - 1, denominator = 2 ^ 63\<rparr>)
        = \<lparr>numerator = 1, denominator = 2 ^ 62\<rparr>
   \<and> op_add \<lparr>numerator = - 1, denominator = 2 ^ 63\<rparr>
             (op_neg \<lparr>numerator = - 1, denominator = 2 ^ 63\<rparr>) \<noteq> Rational_pair 0 1"
proof -
  have c: "Rational_pair 1 INT64_MIN = \<lparr>numerator = - 1, denominator = 2 ^ 63\<rparr>"
    by (simp add: Rational_eval)
  have n: "op_neg \<lparr>numerator = - 1, denominator = 2 ^ 63\<rparr>
        = \<lparr>numerator = - 1, denominator = 2 ^ 63\<rparr>"
    by (simp add: op_neg_def Rational_eval)
  have s: "op_add \<lparr>numerator = - 1, denominator = 2 ^ 63\<rparr>
             \<lparr>numerator = - 1, denominator = 2 ^ 63\<rparr>
        = \<lparr>numerator = 1, denominator = 2 ^ 62\<rparr>"
    by (simp add: op_add_def add_safe_def Rational_eval)
  have p: "0 < unat (2 ^ 63 :: uint64_t)"
    "gcd (nat \<bar>sint (- 1 :: int64_t)\<bar>) (unat (2 ^ 63 :: uint64_t)) = 1"
    "(- 1 :: int64_t) \<noteq> INT64_MIN"
    by (simp_all add: INT64_MIN_def)
  show ?thesis
    unfolding n s using c p by (simp add: Rational_pair_zero_numerator)
qed

text \<open>
  Claim C7, amended: for every value \<open>a\<close> that satisfies the invariant, whose numerator
  is not \<open>INT64_MIN\<close> and whose denominator is below \<open>2^63\<close> (it fits \<open>int64_t\<close>),
  unary minus leaves the denominator unchanged and flips the sign of the numerator, and
  \<open>a + (-a) = make(0, 1)\<close>.
\<close>

theorem additive_inverse_small_denominator:
  assumes "rep_invariant a" and "unat (denominator a) < 2 ^ 63"
    and "numerator a \<noteq> INT64_MIN"
  shows "denominator (op_neg a) = denominator a
         \<and> sint (numerator (op_neg a)) = - sint (numerator a)
         \<and> op_add a (op_neg a) = Rational_pair 0 1"
proof -
  have neg: "op_neg a = \<lparr>numerator = - numerator a, denominator = denominator a\<rparr>"
    using assms(1,2) by (rule op_neg_small_denominator)
  have d0: "denominator a \<noteq> 0"
    using assms(1) by (auto simp: rep_invariant_def)
  have "op_add \<lparr>numerator = numerator a, denominator = denominator a\<rparr>
               \<lparr>numerator = - numerator a, denominator = denominator a\<rparr>
          = \<lparr>numerator = 0, denominator = 1\<rparr>"
    using d0 by (rule op_add_opposite)
  moreover have "a = \<lparr>numerator = numerator a, denominator = denominator a\<rparr>"
    by simp
  ultimately have "op_add a (op_neg a) = Rational_pair 0 1"
    by (simp only: neg Rational_pair_zero_numerator)
  then show ?thesis
    using assms(3) by (simp add: neg sint_minus_flip)
qed

theorem additive_inverse_small_denominator_witness:
  "rep_invariant (Rational_pair (- 3) 4) \<and> unat (denominator (Rational_pair (- 3) 4)) < 2 ^ 63
   \<and> numerator (Rational_pair (- 3) 4) \<noteq> INT64_MIN
   \<and> op_neg (Rational_pair (- 3) 4) = \<lparr>numerator = 3, denominator = 4\<rparr>
   \<and> op_add (Rational_pair (- 3) 4) (op_neg (Rational_pair (- 3) 4)) = Rational_pair 0 1"
proof -
  have v: "Rational_pair (- 3) 4 = \<lparr>numerator = - 3, denominator = 4\<rparr>"
    by (simp add: Rational_eval)
  have i: "rep_invariant \<lparr>numerator = - 3, denominator = 4\<rparr>"
    by (simp add: rep_invariant_def gcd_non_0_nat)
  have d: "unat (denominator \<lparr>numerator = - 3 :: int64_t, denominator = 4 :: uint64_t\<rparr>) < 2 ^ 63"
    by simp
  have m: "numerator \<lparr>numerator = - 3 :: int64_t, denominator = 4 :: uint64_t\<rparr> \<noteq> INT64_MIN"
    by (simp add: INT64_MIN_def)
  have n: "op_neg \<lparr>numerator = - 3, denominator = 4\<rparr> = \<lparr>numerator = 3, denominator = 4\<rparr>"
    by (simp add: op_neg_def Rational_eval)
  show ?thesis
    unfolding v using additive_inverse_small_denominator [OF i d m] i d m n by simp
qed

section \<open>Addition\<close>

text \<open>
  Claim C9. There are strictly positive values whose sum is the zero value:
  \<open>a = make(2^62+1, 2^33)\<close> and \<open>b = make(2^61+1, 2^31)\<close> are stored as given, with
  positive numerators and denominators. The first check of \<open>operator+\<close> triggers, the
  second product of \<open>add_safe\<close> overflows, the product of the denominators in the
  fallback is 0 modulo \<open>2^64\<close>, and \<open>a + b\<close> is \<open>0/1\<close>, equal to \<open>make(0, 1)\<close>.
\<close>

theorem positive_sum_is_zero:
  "Rational_pair (2 ^ 62 + 1) (2 ^ 33) = \<lparr>numerator = 2 ^ 62 + 1, denominator = 2 ^ 33\<rparr>
   \<and> Rational_pair (2 ^ 61 + 1) (2 ^ 31) = \<lparr>numerator = 2 ^ 61 + 1, denominator = 2 ^ 31\<rparr>
   \<and> 0 < sint (2 ^ 62 + 1 :: int64_t) \<and> 0 < unat (2 ^ 33 :: uint64_t)
   \<and> 0 < sint (2 ^ 61 + 1 :: int64_t) \<and> 0 < unat (2 ^ 31 :: uint64_t)
   \<and> mul_overflow (2 ^ 62 + 1) (2 ^ 31)
   \<and> mul_overflow (2 ^ 61 + 1) (2 ^ 33 div gcd_u64_u64 (2 ^ 33) (2 ^ 31))
   \<and> (2 ^ 33 :: uint64_t) * 2 ^ 31 = 0
   \<and> op_add (Rational_pair (2 ^ 62 + 1) (2 ^ 33)) (Rational_pair (2 ^ 61 + 1) (2 ^ 31))
       = Rational_pair 0 1"
proof -
  have a: "Rational_pair (2 ^ 62 + 1) (2 ^ 33) = \<lparr>numerator = 2 ^ 62 + 1, denominator = 2 ^ 33\<rparr>"
    by (simp add: Rational_eval)
  have b: "Rational_pair (2 ^ 61 + 1) (2 ^ 31) = \<lparr>numerator = 2 ^ 61 + 1, denominator = 2 ^ 31\<rparr>"
    by (simp add: Rational_eval)
  have z: "Rational_pair 0 1 = \<lparr>numerator = 0, denominator = 1\<rparr>"
    by (simp add: Rational_eval)
  have s: "op_add \<lparr>numerator = 2 ^ 62 + 1, denominator = 2 ^ 33\<rparr>
                  \<lparr>numerator = 2 ^ 61 + 1, denominator = 2 ^ 31\<rparr>
             = \<lparr>numerator = 0, denominator = 1\<rparr>"
    by (simp add: op_add_def add_safe_def Rational_eval)
  have m: "mul_overflow (2 ^ 62 + 1) (2 ^ 31)"
    "mul_overflow (2 ^ 61 + 1) (2 ^ 33 div gcd_u64_u64 (2 ^ 33) (2 ^ 31))"
    by (simp_all add: Rational_eval)
  have p: "0 < sint (2 ^ 62 + 1 :: int64_t)" "0 < unat (2 ^ 33 :: uint64_t)"
    "0 < sint (2 ^ 61 + 1 :: int64_t)" "0 < unat (2 ^ 31 :: uint64_t)"
    "(2 ^ 33 :: uint64_t) * 2 ^ 31 = 0"
    by simp_all
  show ?thesis
    unfolding a b z s using p m by simp
qed

subsection \<open>Addition against the specification\<close>

text \<open>
  For denominators below \<open>2^63\<close>, \<open>add_safe\<close> is the algorithm of the specification
  (in the one case that \<open>add_overflow\<close> misses, both give \<open>0/1\<close>), and so is
  \<open>operator+\<close> whenever one of its three checks triggers.
\<close>

lemma add_safe_follows_spec:
  assumes "unat (denominator x) < 2 ^ 63" and "unat (denominator y) < 2 ^ 63"
  shows "add_safe x y = spec_add x y"
proof -
  define nx dx ny dy where "nx = numerator x" and "dx = denominator x"
    and "ny = numerator y" and "dy = denominator y"
  define g sd1 sd2 where "g = gcd_u64_u64 dx dy" and "sd1 = dx div g" and "sd2 = dy div g"
  define t1 t2 where "t1 = sint nx * int (unat sd2)" and "t2 = sint ny * int (unat sd1)"
  define F where "F = Rational_pair (nx * dy + ny * dx) (dx * dy)"
  have ug: "unat g = gcd (unat dx) (unat dy)"
    unfolding g_def by (rule unat_gcd_u64_u64)
  have u1: "unat sd1 = unat dx div gcd (unat dx) (unat dy)"
    and u2: "unat sd2 = unat dy div gcd (unat dx) (unat dy)"
    by (simp_all only: sd1_def sd2_def unat_div ug)
  have "unat sd1 \<le> unat dx" "unat sd2 \<le> unat dy"
    unfolding u1 u2 by (rule div_le_dividend)+
  then have "unat sd1 < 2 ^ 63" "unat sd2 < 2 ^ 63"
    using assms by (simp_all add: dx_def dy_def)
  then have s1: "sint sd1 = int (unat sd1)" and s2: "sint sd2 = int (unat sd2)"
    by (simp_all only: sint_of_small_unat)
  have mo1: "mul_overflow nx sd2 \<longleftrightarrow> \<not> representable t1"
    and mo2: "mul_overflow ny sd1 \<longleftrightarrow> \<not> representable t2"
    by (simp_all only: mul_overflow_exact s1 s2 t1_def t2_def representable_def)
  have w1: "word_of_int t1 = nx * sd2" and w2: "word_of_int t2 = ny * sd1"
    unfolding t1_def t2_def by (rule word_of_int_sint_mult_unat)+
  have ws: "word_of_int (t1 + t2) = nx * sd2 + ny * sd1"
    by (simp only: of_int_add w1 w2)
  have wd: "word_of_nat (unat dx * unat sd2) = dx * sd2"
    by simp
  have code: "add_safe x y =
      (if mul_overflow nx sd2 then F else if mul_overflow ny sd1 then F
       else if add_overflow (nx * sd2) (ny * sd1) then F
       else Rational_pair (nx * sd2 + ny * sd1) (dx * sd2))"
    by (simp add: add_safe_def Let_def nx_def dx_def ny_def dy_def g_def sd1_def sd2_def F_def)
  have spec: "spec_add x y =
      (if representable t1 \<and> representable t2 \<and> representable (t1 + t2)
       then Rational_pair (nx * sd2 + ny * sd1) (dx * sd2) else F)"
    unfolding spec_add_def Let_def
    unfolding nx_def [symmetric] dx_def [symmetric] ny_def [symmetric] dy_def [symmetric]
      u1 [symmetric] u2 [symmetric] t1_def [symmetric] t2_def [symmetric] F_def [symmetric] ws wd
    by (rule refl)
  show ?thesis
  proof (cases "representable t1 \<and> representable t2")
    case False
    then show ?thesis unfolding code spec mo1 mo2 by auto
  next
    case True
    then have st: "sint (nx * sd2) = t1" "sint (ny * sd1) = t2"
      unfolding w1 [symmetric] w2 [symmetric]
      by (simp_all add: representable_def sint_word_of_int_self)
    show ?thesis
    proof (cases "nx * sd2 = INT64_MIN \<and> ny * sd1 = INT64_MIN")
      case False
      with True show ?thesis
        unfolding code spec mo1 mo2 add_overflow_exact st by simp
    next
      case both: True
      then have "t1 + t2 = - (2 ^ 64)"
        using st by (simp add: sint_INT64_MIN)
      then have nr: "\<not> representable (t1 + t2)"
        by (simp add: representable_def)
      have ey: "g * sd2 = dy" and ex: "g * sd1 = dx"
        unfolding g_def sd1_def sd2_def
        by (rule mult_div_gcd_right, rule mult_div_gcd_left)
      have "nx * dy + ny * dx = nx * (g * sd2) + ny * (g * sd1)"
        by (simp only: ex ey)
      also have "\<dots> = (nx * sd2) * g + (ny * sd1) * g"
        by (simp only: mult.assoc mult.commute [of g])
      also have "\<dots> = (INT64_MIN + INT64_MIN) * g"
        using both by (simp only: distrib_right)
      finally have "nx * dy + ny * dx = 0"
        by (simp only: double_INT64_MIN mult_zero_left)
      then have "F = Rational_pair (nx * sd2 + ny * sd1) (dx * sd2)"
        using both by (simp add: F_def double_INT64_MIN Rational_pair_zero_numerator)
      with True nr both show ?thesis
        unfolding code spec mo1 mo2 add_overflow_exact st by simp
    qed
  qed
qed

lemma op_add_follows_spec_when_checked:
  assumes "unat (denominator x) < 2 ^ 63" and "unat (denominator y) < 2 ^ 63"
    and "mul_overflow (numerator x) (denominator y) \<or>
         mul_overflow (numerator y) (denominator x) \<or>
         mul_overflow (denominator x) (denominator y)"
  shows "op_add x y = spec_add x y"
  using assms(3) add_safe_follows_spec [OF assms(1,2)] by (simp add: op_add_def)

text \<open>
  Without a triggered check, \<open>operator+\<close> still agrees with the specification as long
  as the sum \<open>a*d + c*b\<close> that it forms fits the signed range.
\<close>

lemma op_add_follows_spec_when_sum_fits:
  assumes dx: "0 < unat (denominator x)" "unat (denominator x) < 2 ^ 63"
    and dy: "0 < unat (denominator y)" "unat (denominator y) < 2 ^ 63"
    and nc: "\<not> mul_overflow (numerator x) (denominator y)"
      "\<not> mul_overflow (numerator y) (denominator x)"
      "\<not> mul_overflow (denominator x) (denominator y)"
    and sum: "representable (sint (numerator x) * int (unat (denominator y))
                            + sint (numerator y) * int (unat (denominator x)))"
  shows "op_add x y = spec_add x y"
proof -
  define a b c d where "a = sint (numerator x)" and "b = int (unat (denominator x))"
    and "c = sint (numerator y)" and "d = int (unat (denominator y))"
  define g where "g = gcd (unat (denominator x)) (unat (denominator y))"
  define G B' D' where "G = int g" and "B' = int (unat (denominator x) div g)"
    and "D' = int (unat (denominator y) div g)"
  have g0: "0 < g" using dx(1) by (simp add: g_def)
  have G0: "0 < G" using g0 by (simp add: G_def)
  have "g * (unat (denominator x) div g) = unat (denominator x)"
    "g * (unat (denominator y) div g) = unat (denominator y)"
    unfolding g_def by simp_all
  then have "int (g * (unat (denominator x) div g)) = b" "int (g * (unat (denominator y) div g)) = d"
    by (simp_all only: b_def d_def)
  then have bG: "b = G * B'" and dG: "d = G * D'"
    by (simp_all only: G_def B'_def D'_def of_nat_mult)
  have sb: "sint (denominator x) = b" and sd: "sint (denominator y) = d"
    unfolding b_def d_def using dx(2) dy(2) by (simp_all only: sint_of_small_unat)
  have r1: "representable (a * d)" and r2: "representable (c * b)" and r3: "representable (b * d)"
    using nc unfolding mul_overflow_exact sb sd a_def [symmetric] c_def [symmetric]
    by (simp_all add: representable_def)
  define t1 t2 where "t1 = a * D'" and "t2 = c * B'"
  have e1: "a * d = G * t1" and e2: "c * b = G * t2" and e3: "b * d = G * (b * D')"
    and es: "a * d + c * b = G * (t1 + t2)"
    by (simp_all add: bG dG t1_def t2_def algebra_simps)
  have rt1: "representable t1" using G0 r1 [unfolded e1] by (rule representable_factor)
  have rt2: "representable t2" using G0 r2 [unfolded e2] by (rule representable_factor)
  have rs: "representable (t1 + t2)"
    using G0 sum [folded a_def b_def c_def d_def, unfolded es] by (rule representable_factor)
  have b0: "0 < b" unfolding b_def using dx(1) by (simp only: of_nat_0_less_iff)
  have "0 < d" unfolding d_def using dy(1) by (simp only: of_nat_0_less_iff)
  then have D0: "0 < D'" using G0 unfolding dG by (simp add: zero_less_mult_iff)
  have Q0: "0 < b * D'" using b0 D0 by simp
  have spec: "spec_add x y = Rational_pair (word_of_int (t1 + t2)) (word_of_int (b * D'))"
  proof -
    have "word_of_nat (unat (denominator x) * (unat (denominator y) div g))
            = (word_of_int (b * D') :: 64 word)"
      by (simp add: b_def D'_def)
    with rt1 rt2 rs show ?thesis
      unfolding spec_add_def Let_def g_def [symmetric]
        a_def [symmetric] c_def [symmetric] B'_def [symmetric] D'_def [symmetric]
        t1_def [symmetric] t2_def [symmetric]
      by (simp only: if_True simp_thms)
  qed
  have "numerator x * denominator y + numerator y * denominator x
          = word_of_int (a * d + c * b)"
    by (simp add: a_def b_def c_def d_def)
  moreover have "denominator x * denominator y = word_of_int (b * d)"
    by (simp add: b_def d_def)
  ultimately have code: "op_add x y
      = Rational_pair (word_of_int (G * (t1 + t2))) (word_of_int (G * (b * D')))"
    using nc by (simp only: op_add_def Let_def if_False simp_thms es e3)
  have "representable (G * (t1 + t2))" "representable (G * (b * D'))"
    using sum [folded a_def b_def c_def d_def, unfolded es] r3 [unfolded e3] by simp_all
  with G0 Q0 have "Rational_pair (word_of_int (G * (t1 + t2))) (word_of_int (G * (b * D')))
      = Rational_pair (word_of_int (t1 + t2)) (word_of_int (b * D'))"
    by (rule Rational_pair_cancel_factor)
  then show ?thesis by (simp only: code spec)
qed

lemma op_add_follows_spec_unless_sum_wraps:
  assumes "0 < unat (denominator x)" "unat (denominator x) < 2 ^ 63"
    and "0 < unat (denominator y)" "unat (denominator y) < 2 ^ 63"
    and "mul_overflow (numerator x) (denominator y) \<or>
         mul_overflow (numerator y) (denominator x) \<or>
         mul_overflow (denominator x) (denominator y) \<or>
         representable (sint (numerator x) * int (unat (denominator y))
                        + sint (numerator y) * int (unat (denominator x)))"
  shows "op_add x y = spec_add x y"
proof (cases "mul_overflow (numerator x) (denominator y) \<or>
         mul_overflow (numerator y) (denominator x) \<or>
         mul_overflow (denominator x) (denominator y)")
  case True
  with assms(2,4) show ?thesis by (rule op_add_follows_spec_when_checked)
next
  case False
  with assms show ?thesis by (intro op_add_follows_spec_when_sum_fits) simp_all
qed

text \<open>
  Claim C3. The claim reads: the sum of \<open>a/b\<close> and \<open>c/d\<close> is the result of the algorithm
  of section 4.3, that is \<open>spec_add\<close>. By the lemmas above the code agrees with it for
  denominators below \<open>2^63\<close> except in one situation: the three products checked by
  \<open>operator+\<close> fit but their sum \<open>a*d + c*b\<close> does not. \<open>operator+\<close> then adds
  without the check that \<open>add_safe\<close> makes. For \<open>(2^61+1)/2 + (2^61+1)/2\<close> the
  algorithm of the specification gives \<open>2^61+1\<close>, the exact sum, and the code gives
  \<open>-2^61+1\<close>.
\<close>

theorem op_add_unchecked_sum:
  "Rational_pair (2 ^ 61 + 1) 2 = \<lparr>numerator = 2 ^ 61 + 1, denominator = 2\<rparr>
   \<and> spec_add \<lparr>numerator = 2 ^ 61 + 1, denominator = 2\<rparr>
               \<lparr>numerator = 2 ^ 61 + 1, denominator = 2\<rparr>
        = \<lparr>numerator = 2 ^ 61 + 1, denominator = 1\<rparr>
   \<and> op_add \<lparr>numerator = 2 ^ 61 + 1, denominator = 2\<rparr>
             \<lparr>numerator = 2 ^ 61 + 1, denominator = 2\<rparr>
        = \<lparr>numerator = - (2 ^ 61) + 1, denominator = 1\<rparr>
   \<and> sint (- (2 ^ 61) + 1 :: int64_t) < 0"
proof -
  have c: "Rational_pair (2 ^ 61 + 1) 2 = \<lparr>numerator = 2 ^ 61 + 1, denominator = 2\<rparr>"
    by (simp add: Rational_eval)
  have s: "spec_add \<lparr>numerator = 2 ^ 61 + 1, denominator = 2\<rparr>
               \<lparr>numerator = 2 ^ 61 + 1, denominator = 2\<rparr>
        = \<lparr>numerator = 2 ^ 61 + 1, denominator = 1\<rparr>"
    by (simp add: spec_add_def representable_def Rational_eval)
  have o: "op_add \<lparr>numerator = 2 ^ 61 + 1, denominator = 2\<rparr>
             \<lparr>numerator = 2 ^ 61 + 1, denominator = 2\<rparr>
        = \<lparr>numerator = - (2 ^ 61) + 1, denominator = 1\<rparr>"
    by (simp add: op_add_def add_safe_def Rational_eval)
  have n: "sint (- (2 ^ 61) + 1 :: int64_t) < 0"
    by simp
  show ?thesis
    unfolding s o using c n by simp
qed

end
